theory Spec2Isabelle
  imports Main
begin

unbundle bit_operations_syntax

section \<open>ARM64 page table walks of the GDB scripts\<close>

text \<open>
  The repository holds two GDB scripts that walk the ARM64 stage-1 translation tables:
  \<^item> \<^verbatim>\<open>scripts/03_walk_pagetable.py\<close>: the command \<^verbatim>\<open>walk_va\<close>
    (\<^verbatim>\<open>WalkPageTable.do_walk\<close>), which translates one virtual address to a physical
    address;
  \<^item> \<^verbatim>\<open>scripts/gdb_pagetable_walk.py\<close>: the command \<^verbatim>\<open>arm64_walk_pagetable\<close>
    (\<^verbatim>\<open>Arm64PageTableWalk.invoke\<close>, \<^verbatim>\<open>walk_table\<close>, \<^verbatim>\<open>decode_pte\<close>), which
    dumps the table hierarchy, or the path of one target address.

  Python integers are unbounded, so every value is an \<open>int\<close>; \<open>x >> n\<close> is
  \<open>drop_bit n x\<close>, \<open>x << n\<close> is \<open>push_bit n x\<close>, and \<open>&\<close>, \<open>|\<close> are \<open>AND\<close>, \<open>OR\<close>
  (two's complement on negative values, as in Python). The debugger is a parameter: a
  register file and a reader of physical memory, both of which may fail (\<open>None\<close>).
  What the scripts print is modelled as structured values that carry the numbers the
  format strings interpolate.
\<close>

type_synonym regfile = "string \<Rightarrow> int option"
type_synonym reader = "int \<Rightarrow> int option"

subsection \<open>\<^verbatim>\<open>03_walk_pagetable.py\<close>: the command \<^verbatim>\<open>walk_va\<close>\<close>

text \<open>\<^verbatim>\<open>read_reg\<close>: the register value forced to unsigned 64 bits, \<open>None\<close> when GDB cannot
  evaluate it.\<close>

definition read_reg :: "regfile \<Rightarrow> string \<Rightarrow> int option" where
  "read_reg regs name =
     (case regs name of None \<Rightarrow> None | Some val \<Rightarrow> Some (val AND 0xFFFFFFFFFFFFFFFF))"

text \<open>One row of the \<^verbatim>\<open>levels\<close> list of \<^verbatim>\<open>do_walk\<close>: name, index, shift, block mask.\<close>

type_synonym level_row = "string \<times> int \<times> nat \<times> int option"

definition levels :: "int \<Rightarrow> level_row list" where
  "levels va =
     [(''L0 (PGD)'', drop_bit 39 va AND 0x1FF, 39, None),
      (''L1 (PUD)'', drop_bit 30 va AND 0x1FF, 30, Some 0x0000FFFFC0000000),
      (''L2 (PMD)'', drop_bit 21 va AND 0x1FF, 21, Some 0x0000FFFFFFE00000),
      (''L3 (PTE)'', drop_bit 12 va AND 0x1FF, 12, Some 0x0000FFFFFFFFF000)]"

text \<open>What one iteration of the loop prints before it decides: the level, the table and
  entry addresses, and the raw entry (\<open>None\<close> when the read failed).\<close>

record step =
  st_level :: nat
  st_table :: int
  st_index :: int
  st_entry_pa :: int
  st_raw :: "int option"

text \<open>How the loop of \<^verbatim>\<open>do_walk\<close> ends.
  \<^item> \<open>ReadError level entry_pa\<close>: \<^verbatim>\<open>ERROR: Could not read physical memory\<close>, return;
  \<^item> \<open>Fault level\<close>: \<^verbatim>\<open><-- FAULT! Address not mapped.\<close>, return, under the
    \<^verbatim>\<open>STEP\<close> header of that level;
  \<^item> \<open>PageMapping page_pa final_pa\<close>: the 4KB page at level 3;
  \<^item> \<open>BlockMapping level block_pa_base final_pa\<close>: a block at level 1 or 2;
  \<^item> \<open>MaskTypeError level\<close>: \<^verbatim>\<open>entry & None\<close> raises (the level 0 row has no block mask);
  \<^item> \<open>NoResult\<close>: the rows ran out with \<^verbatim>\<open>final_pa\<close> still \<^verbatim>\<open>None\<close>.\<close>

datatype outcome =
    ReadError nat int
  | Fault nat
  | PageMapping int int
  | BlockMapping nat int int
  | MaskTypeError nat
  | NoResult

text \<open>The loop \<^verbatim>\<open>for level, (name, idx, shift, block_mask) in enumerate(levels)\<close>.\<close>

fun walk_levels ::
  "reader \<Rightarrow> int \<Rightarrow> int \<Rightarrow> nat \<Rightarrow> level_row list \<Rightarrow> int \<Rightarrow> step list \<times> outcome" where
  "walk_levels rd va offset level [] current_table = ([], NoResult)"
| "walk_levels rd va offset level ((name, idx, shift, block_mask) # rest) current_table =
     (let entry_pa = current_table + idx * 8 in
      case rd entry_pa of
        None \<Rightarrow>
          ([\<lparr>st_level = level, st_table = current_table, st_index = idx,
              st_entry_pa = entry_pa, st_raw = None\<rparr>], ReadError level entry_pa)
      | Some entry \<Rightarrow>
          (let valid = entry AND 1;
               is_table = drop_bit 1 entry AND 1;
               st = \<lparr>st_level = level, st_table = current_table, st_index = idx,
                     st_entry_pa = entry_pa, st_raw = Some entry\<rparr>
           in if valid = 0 then ([st], Fault level)
              else if level = 3 then
                (let page_pa = entry AND 0x0000FFFFFFFFF000
                 in ([st], PageMapping page_pa (page_pa OR offset)))
              else if is_table = 0 \<and> level > 0 then
                (case block_mask of
                   None \<Rightarrow> ([st], MaskTypeError level)
                 | Some m \<Rightarrow>
                     (let block_va_mask = push_bit shift 1 - 1;
                          block_pa_base = entry AND m
                      in ([st], BlockMapping level block_pa_base
                                  (block_pa_base OR (va AND block_va_mask)))))
              else
                (let next_table = entry AND 0x0000FFFFFFFFF000;
                     r = walk_levels rd va offset (level + 1) rest next_table
                 in (st # fst r, snd r))))"

text \<open>What \<^verbatim>\<open>do_walk\<close> reports: the register it chose and its value, the table base, the
  indices and offset it printed, the steps of the loop and how the loop ended.\<close>

record walk_report =
  wr_ttbr_name :: string
  wr_ttbr :: int
  wr_table_pa :: int
  wr_l0_idx :: int
  wr_l1_idx :: int
  wr_l2_idx :: int
  wr_l3_idx :: int
  wr_offset :: int
  wr_steps :: "step list"
  wr_outcome :: outcome

text \<open>\<^verbatim>\<open>do_walk\<close>. When \<^verbatim>\<open>read_reg\<close> returns \<^verbatim>\<open>None\<close>, formatting it with
  \<^verbatim>\<open>{ttbr:016x}\<close> raises a TypeError before any memory is read: \<open>Inl\<close> of the register's
  name. The permission lines and the final \<^verbatim>\<open>monitor xp/1xw\<close> of the result are display
  only and left out.\<close>

definition do_walk :: "regfile \<Rightarrow> reader \<Rightarrow> int \<Rightarrow> string + walk_report" where
  "do_walk regs rd va =
     (let is_kernel = drop_bit 55 va AND 1;
          name = (if is_kernel \<noteq> 0 then ''TTBR1_EL1'' else ''TTBR0_EL1'')
      in case read_reg regs name of
           None \<Rightarrow> Inl name
         | Some ttbr \<Rightarrow>
             (let table_pa = ttbr AND 0x0000FFFFFFFFF000;
                  l0_idx = drop_bit 39 va AND 0x1FF;
                  l1_idx = drop_bit 30 va AND 0x1FF;
                  l2_idx = drop_bit 21 va AND 0x1FF;
                  l3_idx = drop_bit 12 va AND 0x1FF;
                  offset = va AND 0xFFF;
                  r = walk_levels rd va offset 0 (levels va) table_pa
              in Inr \<lparr>wr_ttbr_name = name, wr_ttbr = ttbr, wr_table_pa = table_pa,
                       wr_l0_idx = l0_idx, wr_l1_idx = l1_idx, wr_l2_idx = l2_idx,
                       wr_l3_idx = l3_idx, wr_offset = offset,
                       wr_steps = fst r, wr_outcome = snd r\<rparr>))"

text \<open>\<^verbatim>\<open>WalkPageTable.invoke\<close>: the argument, parsed, is forced to unsigned 64 bits.\<close>

definition walk_va :: "regfile \<Rightarrow> reader \<Rightarrow> int \<Rightarrow> string + walk_report" where
  "walk_va regs rd arg = do_walk regs rd (arg AND 0xFFFFFFFFFFFFFFFF)"

subsection \<open>\<^verbatim>\<open>gdb_pagetable_walk.py\<close>: the command \<^verbatim>\<open>arm64_walk_pagetable\<close>\<close>

text \<open>\<^verbatim>\<open>read_sysreg\<close>: \<^verbatim>\<open>int(val)\<close>, not masked; \<open>None\<close> when GDB cannot evaluate it.\<close>

definition read_sysreg :: "regfile \<Rightarrow> string \<Rightarrow> int option" where
  "read_sysreg regs name = regs name"

text \<open>The string \<^verbatim>\<open>decode_pte\<close> returns, as the values its format strings interpolate:
  \<^item> \<open>UNREADABLE\<close>: \<^verbatim>\<open>"UNREADABLE"\<close>;
  \<^item> \<open>INVALID\<close>: \<^verbatim>\<open>"INVALID (not mapped)"\<close>;
  \<^item> \<open>TABLE next_addr\<close>: \<^verbatim>\<open>"TABLE -> 0x..."\<close>;
  \<^item> \<open>LEAF kind next_addr block_size ap_str xn_str sh_str af_str\<close>: the
    \<^verbatim>\<open>BLOCK\<close> or \<^verbatim>\<open>PAGE\<close> line.
  \<^verbatim>\<open>pxn\<close> and \<^verbatim>\<open>attr_idx\<close> are computed and never printed, and are left out.\<close>

datatype decoded =
    UNREADABLE
  | INVALID
  | TABLE int
  | LEAF string int string string string string string

definition decode_pte :: "int option \<Rightarrow> nat \<Rightarrow> decoded" where
  "decode_pte entry_opt level =
     (case entry_opt of
        None \<Rightarrow> UNREADABLE
      | Some entry \<Rightarrow>
          (let valid = entry AND 1 in
           if valid = 0 then INVALID
           else
             (let is_table = drop_bit 1 entry AND 1;
                  addr_mask = 0x0000FFFFFFFFF000;
                  next_addr = entry AND addr_mask;
                  ap = drop_bit 6 entry AND 0x3;
                  xn = drop_bit 54 entry AND 1;
                  af = drop_bit 10 entry AND 1;
                  sh = drop_bit 8 entry AND 0x3;
                  ap_str = (if ap = 0 then ''RW_EL1'' else if ap = 1 then ''RW_ALL''
                            else if ap = 2 then ''RO_EL1'' else if ap = 3 then ''RO_ALL''
                            else ''??'');
                  sh_str = (if sh = 0 then ''Non-share'' else if sh = 1 then ''Reserved''
                            else if sh = 2 then ''Outer-share''
                            else if sh = 3 then ''Inner-share'' else ''??'')
              in if level < 3 \<and> is_table \<noteq> 0 then TABLE next_addr
                 else
                   (let block_size = (if level = 0 then ''512GB'' else if level = 1 then ''1GB''
                                      else if level = 2 then ''2MB''
                                      else if level = 3 then ''4KB'' else ''??'');
                        xn_str = (if xn \<noteq> 0 then ''NoExec'' else ''Exec'')
                    in LEAF (if level < 3 then ''BLOCK'' else ''PAGE'') next_addr block_size
                         ap_str xn_str sh_str
                         (if af \<noteq> 0 then ''Accessed'' else ''NotAccessed'')))))"

text \<open>What the command does, in order: the reads of memory it issues and the lines it prints.
  \<^item> \<open>Read entry_addr\<close>: a call \<^verbatim>\<open>read_u64(entry_addr)\<close>;
  \<^item> \<open>Header level table_addr\<close>: the header of \<^verbatim>\<open>walk_table\<close>, indented by the level;
  \<^item> \<open>Entry level i va decoded raw\<close>: the two lines of one entry shown;
  \<^item> \<open>Truncated level entries_shown\<close>: \<^verbatim>\<open>... (truncated, n entries shown)\<close>;
  \<^item> \<open>SysRegs ttbr0 ttbr1 tcr sctlr\<close>: the register block of \<^verbatim>\<open>invoke\<close>;
  \<^item> \<open>Walking target_va\<close>: \<^verbatim>\<open>Walking page table for VA\<close>;
  \<^item> \<open>CannotRead name\<close>: \<^verbatim>\<open>Cannot read TTBR1_EL1\<close> or \<^verbatim>\<open>TTBR0_EL1\<close>, return;
  \<^item> \<open>Using name base\<close>: \<^verbatim>\<open>Using TTBR1 (kernel) base\<close> or \<^verbatim>\<open>Using TTBR0 (user) base\<close>;
  \<^item> \<open>Dump name\<close>: \<^verbatim>\<open>TTBR0 (userspace) page table:\<close> or
    \<^verbatim>\<open>TTBR1 (kernel) page table:\<close>.\<close>

datatype event =
    Read int
  | Header nat int
  | Entry nat nat int decoded int
  | Truncated nat nat
  | SysRegs "int option" "int option" "int option" "int option"
  | Walking int
  | CannotRead string
  | Using string int
  | Dump string

definition bits_per_level :: "nat list" where
  "bits_per_level = [39, 30, 21, 12]"

text \<open>\<^verbatim>\<open>walk_table\<close>, and its loop \<^verbatim>\<open>for i in range(512)\<close> as \<open>walk_entries\<close>, from index
  \<open>i\<close> with \<open>entries_shown\<close> entries shown so far. \<^verbatim>\<open>read_u64\<close> is the reader: the
  64-bit value at an address, or \<open>None\<close> on a \<^verbatim>\<open>gdb.MemoryError\<close>.\<close>

function walk_table :: "reader \<Rightarrow> int \<Rightarrow> int \<Rightarrow> nat \<Rightarrow> int option \<Rightarrow> int \<Rightarrow> event list"
  and walk_entries ::
    "reader \<Rightarrow> int \<Rightarrow> int \<Rightarrow> nat \<Rightarrow> int option \<Rightarrow> int \<Rightarrow> nat \<Rightarrow> nat \<Rightarrow> event list" where
  "walk_table rd table_addr va_start level target_va max_entries =
     (if level > 3 then []
      else Header level table_addr
           # walk_entries rd table_addr va_start level target_va max_entries 0 0)"
| "walk_entries rd table_addr va_start level target_va max_entries i entries_shown =
     (if i \<ge> 512 then []
      else
        (let entry_addr = table_addr + int i * 8 in
         Read entry_addr #
         (case rd entry_addr of
            None \<Rightarrow>
              walk_entries rd table_addr va_start level target_va max_entries (i + 1)
                entries_shown
          | Some entry \<Rightarrow>
              if entry AND 1 = 0 then
                walk_entries rd table_addr va_start level target_va max_entries (i + 1)
                  entries_shown
              else
                (let shift = bits_per_level ! level;
                     va0 = va_start OR push_bit shift (int i);
                     va = (if va0 AND push_bit 47 1 \<noteq> 0 then va0 OR 0xFFFF000000000000
                           else va0);
                     decoded = decode_pte (Some entry) level
                 in if (case target_va of
                          None \<Rightarrow> False
                        | Some t \<Rightarrow> int i \<noteq> drop_bit shift t AND 0x1FF) then
                      walk_entries rd table_addr va_start level target_va max_entries (i + 1)
                        entries_shown
                    else
                      Entry level i va decoded entry #
                      (if level < 3 \<and> drop_bit 1 entry AND 1 \<noteq> 0 then
                         walk_table rd (entry AND 0x0000FFFFFFFFF000)
                           (va_start OR push_bit shift (int i)) (level + 1) target_va
                           max_entries
                       else []) @
                      (if int (entries_shown + 1) \<ge> max_entries \<and> target_va = None then
                         [Truncated level (entries_shown + 1)]
                       else
                         walk_entries rd table_addr va_start level target_va max_entries
                           (i + 1) (entries_shown + 1))))))"
  by pat_completeness auto
termination
  by (relation "measure (\<lambda>x. case x of
          Inl (rd, table_addr, va_start, level, target_va, max_entries) \<Rightarrow>
            (4 - level) * 514 + 513
        | Inr (rd, table_addr, va_start, level, target_va, max_entries, i, entries_shown) \<Rightarrow>
            (4 - level) * 514 + (512 - i))") auto

declare walk_table.simps [simp del]
declare walk_entries.simps [simp del]

text \<open>\<^verbatim>\<open>invoke\<close>, after the argument is parsed: \<open>target_va\<close> is \<^verbatim>\<open>int(args[0], 0)\<close>, not
  masked, or \<open>None\<close> without an argument. The lines decoding \<^verbatim>\<open>TCR_EL1\<close> and
  \<^verbatim>\<open>SCTLR_EL1\<close> are display only and are carried by \<open>SysRegs\<close>.\<close>

definition invoke :: "regfile \<Rightarrow> reader \<Rightarrow> int option \<Rightarrow> event list" where
  "invoke regs rd target_va =
     (let ttbr0 = read_sysreg regs ''TTBR0_EL1'';
          ttbr1 = read_sysreg regs ''TTBR1_EL1'';
          tcr = read_sysreg regs ''TCR_EL1'';
          sctlr = read_sysreg regs ''SCTLR_EL1''
      in SysRegs ttbr0 ttbr1 tcr sctlr #
         (case target_va of
            Some t \<Rightarrow>
              Walking t #
              (if t \<ge> 0xFFFF000000000000 then
                 (case ttbr1 of
                    None \<Rightarrow> [CannotRead ''TTBR1_EL1'']
                  | Some v \<Rightarrow>
                      (let base = v AND 0x0000FFFFFFFFFFFF
                       in Using ''TTBR1'' base
                          # walk_table rd base 0xFFFF000000000000 0 (Some t) 512))
               else
                 (case ttbr0 of
                    None \<Rightarrow> [CannotRead ''TTBR0_EL1'']
                  | Some v \<Rightarrow>
                      (let base = v AND 0x0000FFFFFFFFFFFF
                       in Using ''TTBR0'' base # walk_table rd base 0 0 (Some t) 512)))
          | None \<Rightarrow>
              (case ttbr0 of
                 None \<Rightarrow> []
               | Some v \<Rightarrow>
                   (let base = v AND 0x0000FFFFFFFFFFFF
                    in Dump ''TTBR0'' # walk_table rd base 0 0 None 10)) @
              (case ttbr1 of
                 None \<Rightarrow> []
               | Some v \<Rightarrow>
                   (let base = v AND 0x0000FFFFFFFFFFFF
                    in Dump ''TTBR1'' # walk_table rd base 0xFFFF000000000000 0 None 10))))"

text \<open>The lines printed, without the reads.\<close>

fun printed :: "event \<Rightarrow> bool" where
  "printed (Read a) = False"
| "printed ev = True"

subsection \<open>Notions used in the proofs\<close>

text \<open>The entry that the loop of \<^verbatim>\<open>walk_table\<close> shows at index \<open>i\<close>: the entry read there
  when the read succeeds, the entry is valid and the index is the target's (or there is no
  target); \<open>None\<close> when the loop goes on to the next index (\<^verbatim>\<open>continue\<close>).\<close>

definition shown_entry :: "reader \<Rightarrow> int \<Rightarrow> nat \<Rightarrow> int option \<Rightarrow> nat \<Rightarrow> int option" where
  "shown_entry rd table_addr level target_va i =
     (case rd (table_addr + int i * 8) of
        None \<Rightarrow> None
      | Some entry \<Rightarrow>
          if entry AND 1 = 0 then None
          else if (case target_va of
                     None \<Rightarrow> False
                   | Some t \<Rightarrow> int i \<noteq> drop_bit (bits_per_level ! level) t AND 0x1FF)
          then None else Some entry)"

text \<open>The address printed with an entry, sign-extended from bit 47.\<close>

definition entry_va :: "int \<Rightarrow> nat \<Rightarrow> nat \<Rightarrow> int" where
  "entry_va va_start level i =
     (let va0 = va_start OR push_bit (bits_per_level ! level) (int i)
      in if va0 AND push_bit 47 1 \<noteq> 0 then va0 OR 0xFFFF000000000000 else va0)"

text \<open>The recursive call made for an entry shown: only below level 3 and only when bit 1 is
  set.\<close>

definition child_table :: "reader \<Rightarrow> int \<Rightarrow> int \<Rightarrow> nat \<Rightarrow> nat \<Rightarrow> int option \<Rightarrow> int \<Rightarrow> event list" where
  "child_table rd entry va_start level i target_va max_entries =
     (if level < 3 \<and> drop_bit 1 entry AND 1 \<noteq> 0 then
        walk_table rd (entry AND 0x0000FFFFFFFFF000)
          (va_start OR push_bit (bits_per_level ! level) (int i)) (Suc level) target_va max_entries
      else [])"

text \<open>The reads of a walk that has \<open>d\<close> levels left: 512 for each table, and under each
  of its entries a walk with one level less.\<close>

fun subtree_reads :: "nat \<Rightarrow> nat" where
  "subtree_reads 0 = 0"
| "subtree_reads (Suc d) = 512 * (1 + subtree_reads d)"

text \<open>Events by kind.\<close>

fun is_read :: "event \<Rightarrow> bool" where
  "is_read (Read a) = True"
| "is_read ev = False"



subsection \<open>Inputs for the examples\<close>

text \<open>Memories: none readable; every entry 0 (invalid); every entry 1 (valid, bit 1 clear);
  every entry 3 (valid, bit 1 set, next table at address 0, so every table is its own
  child); and the tables of one walk: the level 0 entry at \<open>0x40000000\<close> points to the
  table at \<open>0x40001000\<close>, whose entry 4 at \<open>0x40001020\<close> is the block descriptor
  \<open>0x40010601\<close>.\<close>

definition no_memory :: reader where
  "no_memory a = None"

definition zero_memory :: reader where
  "zero_memory a = Some 0"

definition block_memory :: reader where
  "block_memory a = Some 1"

definition cyclic_memory :: reader where
  "cyclic_memory a = Some 3"

definition scenario_memory :: reader where
  "scenario_memory a =
     (if a = 0x40000000 then Some 0x40001003
      else if a = 0x40001020 then Some 0x0000000040010601
      else None)"

text \<open>Register files: every register \<open>0x40000000\<close>; every register \<open>0x40000001\<close> (a
  translation table base with bit 0, the CnP bit, set).\<close>

definition example_regs :: regfile where
  "example_regs name = Some 0x40000000"

definition cnp_regs :: regfile where
  "cnp_regs name = Some 0x40000001"

definition no_regs :: regfile where
  "no_regs name = None"

text \<open>What \<^verbatim>\<open>do_walk\<close> reports for \<open>0x123456789\<close> on \<open>scenario_memory\<close>.\<close>

definition scenario_report :: walk_report where
  "scenario_report =
     \<lparr>wr_ttbr_name = ''TTBR0_EL1'', wr_ttbr = 0x40000000, wr_table_pa = 0x40000000,
      wr_l0_idx = 0, wr_l1_idx = 4, wr_l2_idx = 282, wr_l3_idx = 86, wr_offset = 0x789,
      wr_steps = [\<lparr>st_level = 0, st_table = 0x40000000, st_index = 0,
                    st_entry_pa = 0x40000000, st_raw = Some 0x40001003\<rparr>,
                  \<lparr>st_level = 1, st_table = 0x40001000, st_index = 4,
                    st_entry_pa = 0x40001020, st_raw = Some 0x40010601\<rparr>],
      wr_outcome = BlockMapping 1 0x40000000 0x63456789\<rparr>"

text \<open>More memories: entry 0 unreadable, entry 1 invalid, every other entry 1; and only
  address 0 readable, holding 1.\<close>

definition holey_memory :: reader where
  "holey_memory a = (if a = 0 then None else if a = 8 then Some 0 else Some 1)"


text \<open>What \<^verbatim>\<open>do_walk\<close> reports for 0 on \<open>block_memory\<close>, and for \<open>0x123456789\<close> on
  \<open>zero_memory\<close>.\<close>

definition level0_report :: walk_report where
  "level0_report =
     \<lparr>wr_ttbr_name = ''TTBR0_EL1'', wr_ttbr = 0x40000000, wr_table_pa = 0x40000000,
      wr_l0_idx = 0, wr_l1_idx = 0, wr_l2_idx = 0, wr_l3_idx = 0, wr_offset = 0,
      wr_steps = [\<lparr>st_level = 0, st_table = 0x40000000, st_index = 0,
                    st_entry_pa = 0x40000000, st_raw = Some 1\<rparr>,
                  \<lparr>st_level = 1, st_table = 0, st_index = 0,
                    st_entry_pa = 0, st_raw = Some 1\<rparr>],
      wr_outcome = BlockMapping 1 0 0\<rparr>"

definition fault_report :: walk_report where
  "fault_report =
     \<lparr>wr_ttbr_name = ''TTBR0_EL1'', wr_ttbr = 0x40000000, wr_table_pa = 0x40000000,
      wr_l0_idx = 0, wr_l1_idx = 4, wr_l2_idx = 282, wr_l3_idx = 86, wr_offset = 0x789,
      wr_steps = [\<lparr>st_level = 0, st_table = 0x40000000, st_index = 0,
                    st_entry_pa = 0x40000000, st_raw = Some 0\<rparr>],
      wr_outcome = Fault 0\<rparr>"

text \<open>A register file whose two table base registers differ: \<^verbatim>\<open>TTBR1_EL1\<close> is
  \<open>0x50000000\<close>, every other register \<open>0x40000000\<close>.\<close>

definition split_regs :: regfile where
  "split_regs name = (if name = ''TTBR1_EL1'' then Some 0x50000000 else Some 0x40000000)"

text \<open>What \<^verbatim>\<open>do_walk\<close> reports for the kernel address \<open>0xFFFFABCD12345678\<close> on
  \<open>zero_memory\<close>, and for \<open>0x0080000000000000\<close> (bit 55 set, bits 63 to 56 clear) with
  \<open>split_regs\<close> on \<open>no_memory\<close>.\<close>

definition kernel_fault_report :: walk_report where
  "kernel_fault_report =
     \<lparr>wr_ttbr_name = ''TTBR1_EL1'', wr_ttbr = 0x40000000, wr_table_pa = 0x40000000,
      wr_l0_idx = 343, wr_l1_idx = 308, wr_l2_idx = 145, wr_l3_idx = 325, wr_offset = 0x678,
      wr_steps = [\<lparr>st_level = 0, st_table = 0x40000000, st_index = 343,
                    st_entry_pa = 0x40000AB8, st_raw = Some 0\<rparr>],
      wr_outcome = Fault 0\<rparr>"

definition split_report :: walk_report where
  "split_report =
     \<lparr>wr_ttbr_name = ''TTBR1_EL1'', wr_ttbr = 0x50000000, wr_table_pa = 0x50000000,
      wr_l0_idx = 0, wr_l1_idx = 0, wr_l2_idx = 0, wr_l3_idx = 0, wr_offset = 0,
      wr_steps = [\<lparr>st_level = 0, st_table = 0x50000000, st_index = 0,
                    st_entry_pa = 0x50000000, st_raw = None\<rparr>],
      wr_outcome = ReadError 0 0x50000000\<rparr>"

section \<open>Masks as bit ranges\<close>

lemma and_0x1FF: "(x::int) AND 0x1FF = take_bit 9 x"
  by (simp add: take_bit_eq_mask mask_eq_exp_minus_1)

lemma and_0xFFF: "(x::int) AND 0xFFF = take_bit 12 x"
  by (simp add: take_bit_eq_mask mask_eq_exp_minus_1)

lemma and_low48: "(x::int) AND 0xFFFFFFFFFFFF = take_bit 48 x"
  by (simp add: take_bit_eq_mask mask_eq_exp_minus_1)

lemma bits_47_12: "(0x0000FFFFFFFFF000::int) = push_bit 12 (mask 36)"
  by (simp add: mask_eq_exp_minus_1 push_bit_eq_mult)



lemma bit_and_47_12: "bit ((x::int) AND 0x0000FFFFFFFFF000) n \<longleftrightarrow> bit x n \<and> 12 \<le> n \<and> n < 48"
  unfolding bits_47_12 by (auto simp add: bit_simps)



lemma reconstruct_low48:
  "push_bit 39 (take_bit 9 (drop_bit 39 va)) OR push_bit 30 (take_bit 9 (drop_bit 30 va))
     OR push_bit 21 (take_bit 9 (drop_bit 21 va)) OR push_bit 12 (take_bit 9 (drop_bit 12 va))
     OR take_bit 12 va = take_bit 48 (va::int)"
proof (rule bit_eqI)
  fix n :: nat
  consider "n < 12" | "12 \<le> n \<and> n < 21" | "21 \<le> n \<and> n < 30" | "30 \<le> n \<and> n < 39"
    | "39 \<le> n \<and> n < 48" | "48 \<le> n" by linarith
  then show "bit (push_bit 39 (take_bit 9 (drop_bit 39 va))
      OR push_bit 30 (take_bit 9 (drop_bit 30 va))
      OR push_bit 21 (take_bit 9 (drop_bit 21 va))
      OR push_bit 12 (take_bit 9 (drop_bit 12 va)) OR take_bit 12 va) n
    = bit (take_bit 48 va) n"
    by cases (auto simp add: bit_simps)
qed

section \<open>The loop of \<^verbatim>\<open>walk_table\<close>, step by step\<close>

lemma walk_entries_step:
  "walk_entries rd t vs lvl tgt mx i sh =
     (if 512 \<le> i then []
      else Read (t + int i * 8) #
        (case shown_entry rd t lvl tgt i of
           None \<Rightarrow> walk_entries rd t vs lvl tgt mx (Suc i) sh
         | Some e \<Rightarrow>
             Entry lvl i (entry_va vs lvl i) (decode_pte (Some e) lvl) e #
             child_table rd e vs lvl i tgt mx @
             (if mx \<le> int (Suc sh) \<and> tgt = None then [Truncated lvl (Suc sh)]
              else walk_entries rd t vs lvl tgt mx (Suc i) (Suc sh))))"
proof (cases "rd (t + int i * 8)")
  case None
  then show ?thesis
    by (subst walk_entries.simps) (simp add: shown_entry_def)
next
  case (Some e)
  show ?thesis
  proof (cases "e AND 1 = 0")
    case True
    with Some show ?thesis
      by (subst walk_entries.simps) (simp add: shown_entry_def)
  next
    case False
    show ?thesis
    proof (cases "case tgt of None \<Rightarrow> False
                   | Some tv \<Rightarrow> int i \<noteq> drop_bit (bits_per_level ! lvl) tv AND 0x1FF")
      case True
      with Some False show ?thesis
        by (subst walk_entries.simps) (simp add: shown_entry_def Let_def)
    next
      case nomatch: False
      with Some False show ?thesis
        by (subst walk_entries.simps)
           (simp add: shown_entry_def entry_va_def child_table_def Let_def)
    qed
  qed
qed

lemma shown_entry_None:
  "shown_entry rd t lvl tgt i = None \<longleftrightarrow>
     rd (t + int i * 8) = None
     \<or> (\<exists>e. rd (t + int i * 8) = Some e \<and> e AND 1 = 0)
     \<or> (\<exists>e. rd (t + int i * 8) = Some e \<and> e AND 1 \<noteq> 0 \<and>
            (case tgt of None \<Rightarrow> False
             | Some tv \<Rightarrow> int i \<noteq> drop_bit (bits_per_level ! lvl) tv AND 0x1FF))"
  by (cases "rd (t + int i * 8)") (simp_all add: shown_entry_def)

lemma shown_entry_Some:
  "shown_entry rd t lvl tgt i = Some e \<longleftrightarrow>
     rd (t + int i * 8) = Some e \<and> e AND 1 \<noteq> 0 \<and>
     \<not> (case tgt of None \<Rightarrow> False
        | Some tv \<Rightarrow> int i \<noteq> drop_bit (bits_per_level ! lvl) tv AND 0x1FF)"
  by (cases "rd (t + int i * 8)") (auto simp add: shown_entry_def)

lemma walk_induct [case_names table entries]:
  assumes T: "\<And>rd t vs lvl tgt mx.
      (lvl \<le> 3 \<Longrightarrow> Q rd t vs lvl tgt mx 0 0) \<Longrightarrow> P rd t vs lvl tgt mx"
    and E: "\<And>rd t vs lvl tgt mx i sh.
      (i < 512 \<Longrightarrow> shown_entry rd t lvl tgt i = None \<Longrightarrow> Q rd t vs lvl tgt mx (Suc i) sh) \<Longrightarrow>
      (\<And>e. i < 512 \<Longrightarrow> shown_entry rd t lvl tgt i = Some e \<Longrightarrow>
            \<not> (mx \<le> int (Suc sh) \<and> tgt = None) \<Longrightarrow> Q rd t vs lvl tgt mx (Suc i) (Suc sh)) \<Longrightarrow>
      (\<And>e. i < 512 \<Longrightarrow> shown_entry rd t lvl tgt i = Some e \<Longrightarrow> lvl < 3 \<Longrightarrow>
            drop_bit 1 e AND 1 \<noteq> 0 \<Longrightarrow>
            P rd (e AND 0x0000FFFFFFFFF000) (vs OR push_bit (bits_per_level ! lvl) (int i))
              (Suc lvl) tgt mx) \<Longrightarrow>
      Q rd t vs lvl tgt mx i sh"
  shows "P rd t vs lvl tgt mx" and "Q rd t vs lvl tgt mx i sh"
proof (induction rd t vs lvl tgt mx and rd t vs lvl tgt mx i sh
    rule: walk_table_walk_entries.induct)
  case (1 rd table_addr va_start level target_va max_entries)
  show ?case
  proof (rule T)
    assume "level \<le> 3"
    then have "\<not> 3 < level" by simp
    then show "Q rd table_addr va_start level target_va max_entries 0 0" by (rule 1)
  qed
next
  case (2 rd table_addr va_start level target_va max_entries i entries_shown)
  show ?case
  proof (rule E)
    assume i: "i < 512" and sn: "shown_entry rd table_addr level target_va i = None"
    from i have ni: "\<not> 512 \<le> i" by simp
    have "Q rd table_addr va_start level target_va max_entries (i + 1) entries_shown"
    proof (cases "rd (table_addr + int i * 8)")
      case None
      show ?thesis by (rule "2.IH"(1) [OF ni refl None])
    next
      case (Some e)
      show ?thesis
      proof (cases "e AND 1 = 0")
        case True
        show ?thesis by (rule "2.IH"(2) [OF ni refl Some True])
      next
        case False
        from sn Some False
        have m: "case target_va of None \<Rightarrow> False
           | Some tv \<Rightarrow> int i \<noteq> drop_bit (bits_per_level ! level) tv AND 0x1FF"
          by (simp add: shown_entry_def split: if_splits)
        show ?thesis by (rule "2.IH"(3) [OF ni refl Some False refl refl refl refl m])
      qed
    qed
    then show "Q rd table_addr va_start level target_va max_entries (Suc i) entries_shown"
      by simp
  next
    fix e
    assume i: "i < 512" and se: "shown_entry rd table_addr level target_va i = Some e"
      and c: "\<not> (max_entries \<le> int (Suc entries_shown) \<and> target_va = None)"
    from i have ni: "\<not> 512 \<le> i" by simp
    from se have e: "rd (table_addr + int i * 8) = Some e" "e AND 1 \<noteq> 0"
      "\<not> (case target_va of None \<Rightarrow> False
          | Some tv \<Rightarrow> int i \<noteq> drop_bit (bits_per_level ! level) tv AND 0x1FF)"
      unfolding shown_entry_Some by simp_all
    from c have c': "\<not> (max_entries \<le> int (entries_shown + 1) \<and> target_va = None)" by simp
    have "Q rd table_addr va_start level target_va max_entries (i + 1) (entries_shown + 1)"
      by (rule "2.IH"(5) [OF ni refl e(1,2) refl refl refl refl e(3) c'])
    then show "Q rd table_addr va_start level target_va max_entries (Suc i) (Suc entries_shown)"
      by simp
  next
    fix e
    assume i: "i < 512" and se: "shown_entry rd table_addr level target_va i = Some e"
      and c: "level < 3" "drop_bit 1 e AND 1 \<noteq> 0"
    from i have ni: "\<not> 512 \<le> i" by simp
    from se have e: "rd (table_addr + int i * 8) = Some e" "e AND 1 \<noteq> 0"
      "\<not> (case target_va of None \<Rightarrow> False
          | Some tv \<Rightarrow> int i \<noteq> drop_bit (bits_per_level ! level) tv AND 0x1FF)"
      unfolding shown_entry_Some by simp_all
    from c have c': "level < 3 \<and> drop_bit 1 e AND 1 \<noteq> 0" by simp
    have "P rd (e AND 0x0000FFFFFFFFF000)
        (va_start OR push_bit (bits_per_level ! level) (int i)) (level + 1) target_va max_entries"
      by (rule "2.IH"(4) [OF ni refl e(1,2) refl refl refl refl e(3) c'])
    then show "P rd (e AND 0x0000FFFFFFFFF000)
        (va_start OR push_bit (bits_per_level ! level) (int i)) (Suc level) target_va max_entries"
      by simp
  qed
qed

lemma walk_table_step:
  "walk_table rd t vs lvl tgt mx =
     (if 3 < lvl then [] else Header lvl t # walk_entries rd t vs lvl tgt mx 0 0)"
  by (subst walk_table.simps) simp

section \<open>What the events of a walk can be\<close>

lemma entry_facts:
  "Entry l j va d raw \<in> set (walk_table rd t vs lvl tgt mx) \<Longrightarrow>
     raw AND 1 \<noteq> 0 \<and> d = decode_pte (Some raw) l \<and> j < 512 \<and> lvl \<le> l \<and> l \<le> 3
     \<and> (\<forall>tv. tgt = Some tv \<longrightarrow> int j = drop_bit (bits_per_level ! l) tv AND 0x1FF)"
  "lvl \<le> 3 \<Longrightarrow> Entry l j va d raw \<in> set (walk_entries rd t vs lvl tgt mx i sh) \<Longrightarrow>
     raw AND 1 \<noteq> 0 \<and> d = decode_pte (Some raw) l \<and> j < 512 \<and> lvl \<le> l \<and> l \<le> 3
     \<and> (\<forall>tv. tgt = Some tv \<longrightarrow> int j = drop_bit (bits_per_level ! l) tv AND 0x1FF)"
proof (induction rd t vs lvl tgt mx and rd t vs lvl tgt mx i sh rule: walk_induct)
  case (table rd t vs lvl tgt mx)
  then show ?case
    by (simp add: walk_table_step split: if_splits)
next
  case (entries rd t vs lvl tgt mx i sh)
  note lvl = entries.prems(1) and mem = entries.prems(2)
  from mem have i: "i < 512"
    by (subst (asm) walk_entries_step) (simp split: if_splits)
  show ?case
  proof (cases "shown_entry rd t lvl tgt i")
    case None
    with mem i have "Entry l j va d raw \<in> set (walk_entries rd t vs lvl tgt mx (Suc i) sh)"
      by (subst (asm) walk_entries_step) simp
    then show ?thesis by (rule entries.IH(1) [OF i None lvl])
  next
    case (Some e)
    with mem i consider
      "Entry l j va d raw = Entry lvl i (entry_va vs lvl i) (decode_pte (Some e) lvl) e"
      | "Entry l j va d raw \<in> set (child_table rd e vs lvl i tgt mx)"
      | "\<not> (mx \<le> int (Suc sh) \<and> tgt = None)"
        "Entry l j va d raw \<in> set (walk_entries rd t vs lvl tgt mx (Suc i) (Suc sh))"
      by (subst (asm) walk_entries_step) (auto split: if_splits)
    then show ?thesis
    proof cases
      case 1
      with Some i lvl show ?thesis
        by (auto simp add: shown_entry_Some)
    next
      case 2
      then have c: "lvl < 3" "drop_bit 1 e AND 1 \<noteq> 0"
        and m: "Entry l j va d raw \<in> set (walk_table rd (e AND 0x0000FFFFFFFFF000)
          (vs OR push_bit (bits_per_level ! lvl) (int i)) (Suc lvl) tgt mx)"
        by (simp_all add: child_table_def split: if_splits)
      from entries.IH(3) [OF i Some c m] show ?thesis by simp
    next
      case 3
      from entries.IH(2) [OF i Some 3(1) lvl 3(2)] show ?thesis .
    qed
  qed
qed

lemma header_facts:
  "Header l a \<in> set (walk_table rd t vs lvl tgt mx) \<Longrightarrow> lvl \<le> l \<and> l \<le> 3"
  "lvl \<le> 3 \<Longrightarrow> Header l a \<in> set (walk_entries rd t vs lvl tgt mx i sh) \<Longrightarrow> lvl < l \<and> l \<le> 3"
proof (induction rd t vs lvl tgt mx and rd t vs lvl tgt mx i sh rule: walk_induct)
  case (table rd t vs lvl tgt mx)
  then show ?case
    by (auto simp add: walk_table_step split: if_splits)
next
  case (entries rd t vs lvl tgt mx i sh)
  note lvl = entries.prems(1) and mem = entries.prems(2)
  from mem have i: "i < 512"
    by (subst (asm) walk_entries_step) (simp split: if_splits)
  show ?case
  proof (cases "shown_entry rd t lvl tgt i")
    case None
    with mem i have "Header l a \<in> set (walk_entries rd t vs lvl tgt mx (Suc i) sh)"
      by (subst (asm) walk_entries_step) simp
    then show ?thesis by (rule entries.IH(1) [OF i None lvl])
  next
    case (Some e)
    with mem i consider
      "Header l a \<in> set (child_table rd e vs lvl i tgt mx)"
      | "\<not> (mx \<le> int (Suc sh) \<and> tgt = None)"
        "Header l a \<in> set (walk_entries rd t vs lvl tgt mx (Suc i) (Suc sh))"
      by (subst (asm) walk_entries_step) (auto split: if_splits)
    then show ?thesis
    proof cases
      case 1
      then have c: "lvl < 3" "drop_bit 1 e AND 1 \<noteq> 0"
        and m: "Header l a \<in> set (walk_table rd (e AND 0x0000FFFFFFFFF000)
          (vs OR push_bit (bits_per_level ! lvl) (int i)) (Suc lvl) tgt mx)"
        by (simp_all add: child_table_def split: if_splits)
      from entries.IH(3) [OF i Some c m] show ?thesis by simp
    next
      case 2
      from entries.IH(2) [OF i Some 2(1) lvl 2(2)] show ?thesis .
    qed
  qed
qed


lemma child_table_levels:
  "Entry l j va d raw \<in> set (child_table rd e vs lvl i tgt mx) \<Longrightarrow> lvl < l"
  "Header l a \<in> set (child_table rd e vs lvl i tgt mx) \<Longrightarrow>
     lvl < 3 \<and> drop_bit 1 e AND 1 \<noteq> 0 \<and>
     (l = Suc lvl \<longrightarrow> a = e AND 0x0000FFFFFFFFF000)"
proof -
  show "Entry l j va d raw \<in> set (child_table rd e vs lvl i tgt mx) \<Longrightarrow> lvl < l"
    by (auto simp add: child_table_def dest: entry_facts(1) split: if_splits)
  assume h: "Header l a \<in> set (child_table rd e vs lvl i tgt mx)"
  then have c: "lvl < 3" "drop_bit 1 e AND 1 \<noteq> 0"
    and m: "Header l a \<in> set (walk_table rd (e AND 0x0000FFFFFFFFF000)
          (vs OR push_bit (bits_per_level ! lvl) (int i)) (Suc lvl) tgt mx)"
    by (simp_all add: child_table_def split: if_splits)
  have "a = e AND 0x0000FFFFFFFFF000" if l: "l = Suc lvl"
  proof (rule ccontr)
    assume "a \<noteq> e AND 0x0000FFFFFFFFF000"
    with m l c(1) have "Header (Suc lvl) a \<in> set (walk_entries rd (e AND 0x0000FFFFFFFFF000)
          (vs OR push_bit (bits_per_level ! lvl) (int i)) (Suc lvl) tgt mx 0 0)"
      by (subst (asm) walk_table_step) simp
    moreover from c(1) have "Suc lvl \<le> 3" by simp
    ultimately have "Suc lvl < Suc lvl" using header_facts(2) by blast
    then show False by simp
  qed
  with c show "lvl < 3 \<and> drop_bit 1 e AND 1 \<noteq> 0 \<and>
     (l = Suc lvl \<longrightarrow> a = e AND 0x0000FFFFFFFFF000)" by blast
qed

lemma own_entries:
  "lvl \<le> 3 \<Longrightarrow> Entry lvl j va d raw \<in> set (walk_table rd t vs lvl tgt mx) \<Longrightarrow>
     shown_entry rd t lvl tgt j = Some raw \<and> va = entry_va vs lvl j"
  "lvl \<le> 3 \<Longrightarrow> Entry lvl j va d raw \<in> set (walk_entries rd t vs lvl tgt mx i sh) \<Longrightarrow>
     i \<le> j \<and> shown_entry rd t lvl tgt j = Some raw \<and> va = entry_va vs lvl j"
proof (induction rd t vs lvl tgt mx and rd t vs lvl tgt mx i sh rule: walk_induct)
  case (table rd t vs lvl tgt mx)
  then show ?case
    by (auto simp add: walk_table_step split: if_splits)
next
  case (entries rd t vs lvl tgt mx i sh)
  note lvl = entries.prems(1) and mem = entries.prems(2)
  from mem have i: "i < 512"
    by (subst (asm) walk_entries_step) (simp split: if_splits)
  show ?case
  proof (cases "shown_entry rd t lvl tgt i")
    case None
    with mem i have "Entry lvl j va d raw \<in> set (walk_entries rd t vs lvl tgt mx (Suc i) sh)"
      by (subst (asm) walk_entries_step) simp
    from entries.IH(1) [OF i None lvl this] show ?thesis by simp
  next
    case (Some e)
    with mem i consider
      "Entry lvl j va d raw = Entry lvl i (entry_va vs lvl i) (decode_pte (Some e) lvl) e"
      | "Entry lvl j va d raw \<in> set (child_table rd e vs lvl i tgt mx)"
      | "\<not> (mx \<le> int (Suc sh) \<and> tgt = None)"
        "Entry lvl j va d raw \<in> set (walk_entries rd t vs lvl tgt mx (Suc i) (Suc sh))"
      by (subst (asm) walk_entries_step) (auto split: if_splits)
    then show ?thesis
    proof cases
      case 1
      with Some show ?thesis by simp
    next
      case 2
      from child_table_levels(1) [OF 2] show ?thesis by simp
    next
      case 3
      from entries.IH(2) [OF i Some 3(1) lvl 3(2)] show ?thesis by simp
    qed
  qed
qed

lemma descent:
  "lvl \<le> 3 \<Longrightarrow> Header (Suc lvl) a \<in> set (walk_table rd t vs lvl tgt mx) \<Longrightarrow>
     \<exists>j e. j < 512 \<and> shown_entry rd t lvl tgt j = Some e \<and> drop_bit 1 e AND 1 \<noteq> 0
       \<and> a = e AND 0x0000FFFFFFFFF000"
  "lvl \<le> 3 \<Longrightarrow> Header (Suc lvl) a \<in> set (walk_entries rd t vs lvl tgt mx i sh) \<Longrightarrow>
     \<exists>j e. j < 512 \<and> shown_entry rd t lvl tgt j = Some e \<and> drop_bit 1 e AND 1 \<noteq> 0
       \<and> a = e AND 0x0000FFFFFFFFF000"
proof (induction rd t vs lvl tgt mx and rd t vs lvl tgt mx i sh rule: walk_induct)
  case (table rd t vs lvl tgt mx)
  then show ?case
    by (auto simp add: walk_table_step split: if_splits)
next
  case (entries rd t vs lvl tgt mx i sh)
  note lvl = entries.prems(1) and mem = entries.prems(2)
  from mem have i: "i < 512"
    by (subst (asm) walk_entries_step) (simp split: if_splits)
  show ?case
  proof (cases "shown_entry rd t lvl tgt i")
    case None
    with mem i have "Header (Suc lvl) a \<in> set (walk_entries rd t vs lvl tgt mx (Suc i) sh)"
      by (subst (asm) walk_entries_step) simp
    from entries.IH(1) [OF i None lvl this] show ?thesis .
  next
    case (Some e)
    with mem i consider
      "Header (Suc lvl) a \<in> set (child_table rd e vs lvl i tgt mx)"
      | "\<not> (mx \<le> int (Suc sh) \<and> tgt = None)"
        "Header (Suc lvl) a \<in> set (walk_entries rd t vs lvl tgt mx (Suc i) (Suc sh))"
      by (subst (asm) walk_entries_step) (auto split: if_splits)
    then show ?thesis
    proof cases
      case 1
      from child_table_levels(2) [OF 1] Some i show ?thesis by blast
    next
      case 2
      from entries.IH(2) [OF i Some 2(1) lvl 2(2)] show ?thesis .
    qed
  qed
qed




section \<open>Bounds and counts\<close>

lemma reads_bounded:
  "length (filter is_read (walk_table rd t vs lvl tgt mx)) \<le> subtree_reads (4 - lvl)"
  "lvl \<le> 3 \<Longrightarrow> length (filter is_read (walk_entries rd t vs lvl tgt mx i sh))
     \<le> (512 - i) * (1 + subtree_reads (3 - lvl))"
proof (induction rd t vs lvl tgt mx and rd t vs lvl tgt mx i sh rule: walk_induct)
  case (table rd t vs lvl tgt mx)
  show ?case
  proof (cases "lvl \<le> 3")
    case True
    then have "4 - lvl = Suc (3 - lvl)" by simp
    with table [OF True True] True show ?thesis
      by (simp add: walk_table_step)
  next
    case False
    then show ?thesis by (simp add: walk_table_step)
  qed
next
  case (entries rd t vs lvl tgt mx i sh)
  note lvl = entries.prems(1)
  let ?K = "1 + subtree_reads (3 - lvl)"
  show ?case
  proof (cases "i < 512")
    case False
    then show ?thesis by (subst walk_entries_step) simp
  next
    case i: True
    then have split: "(512 - i) * ?K = ?K + (512 - Suc i) * ?K"
      by (simp add: Suc_diff_Suc [symmetric] del: subtree_reads.simps)
    show ?thesis
    proof (cases "shown_entry rd t lvl tgt i")
      case None
      from entries.IH(1) [OF i None lvl] None i show ?thesis
        unfolding split by (subst walk_entries_step) simp
    next
      case (Some e)
      have child: "length (filter is_read (child_table rd e vs lvl i tgt mx))
          \<le> subtree_reads (3 - lvl)"
      proof (cases "lvl < 3 \<and> drop_bit 1 e AND 1 \<noteq> 0")
        case True
        then have "4 - Suc lvl = 3 - lvl" by simp
        with entries.IH(3) [OF i Some] True show ?thesis
          by (simp add: child_table_def)
      next
        case False
        then show ?thesis by (auto simp add: child_table_def)
      qed
      have rest: "length (filter is_read
            (if mx \<le> int (Suc sh) \<and> tgt = None then [Truncated lvl (Suc sh)]
             else walk_entries rd t vs lvl tgt mx (Suc i) (Suc sh)))
          \<le> (512 - Suc i) * ?K"
      proof (cases "mx \<le> int (Suc sh) \<and> tgt = None")
        case True
        then show ?thesis by simp
      next
        case False
        from entries.IH(2) [OF i Some False lvl] False show ?thesis by simp
      qed
      have "length (filter is_read (walk_entries rd t vs lvl tgt mx i sh))
          = 1 + length (filter is_read (child_table rd e vs lvl i tgt mx))
            + length (filter is_read
            (if mx \<le> int (Suc sh) \<and> tgt = None then [Truncated lvl (Suc sh)]
             else walk_entries rd t vs lvl tgt mx (Suc i) (Suc sh)))"
        using Some i by (subst walk_entries_step) simp
      with child rest show ?thesis
        unfolding split by linarith
    qed
  qed
qed





section \<open>The loop of \<^verbatim>\<open>do_walk\<close>\<close>

lemma walk_levels_length:
  "length (fst (walk_levels rd va off lvl rows tbl)) \<le> length rows"
proof (induction rows arbitrary: lvl tbl)
  case Nil
  show ?case by simp
next
  case (Cons row rows)
  obtain name idx shift block_mask where row: "row = (name, idx, shift, block_mask)"
    by (cases row) auto
  from Cons.IH show ?case
    by (auto simp add: row Let_def le_SucI split: option.splits)
qed

lemma walk_levels_step_levels:
  "k < length (fst (walk_levels rd va off lvl rows tbl)) \<Longrightarrow>
     st_level (fst (walk_levels rd va off lvl rows tbl) ! k) = lvl + k"
proof (induction rows arbitrary: lvl tbl k)
  case Nil
  then show ?case by simp
next
  case (Cons row rows)
  obtain name idx shift block_mask where row: "row = (name, idx, shift, block_mask)"
    by (cases row) auto
  show ?case
  proof (cases k)
    case 0
    then show ?thesis
      by (auto simp add: row Let_def split: option.splits)
  next
    case (Suc k')
    with Cons.prems Cons.IH [of k' "Suc lvl"] show ?thesis
      by (auto simp add: row Let_def split: option.splits if_splits)
  qed
qed

lemma walk_levels_invalid_stops:
  "k < length (fst (walk_levels rd va off lvl rows tbl)) \<Longrightarrow>
   st_raw (fst (walk_levels rd va off lvl rows tbl) ! k) = Some e \<Longrightarrow> e AND 1 = 0 \<Longrightarrow>
     Suc k = length (fst (walk_levels rd va off lvl rows tbl))
     \<and> snd (walk_levels rd va off lvl rows tbl) = Fault (lvl + k)"
proof (induction rows arbitrary: lvl tbl k)
  case Nil
  then show ?case by simp
next
  case (Cons row rows)
  obtain name idx shift block_mask where row: "row = (name, idx, shift, block_mask)"
    by (cases row) auto
  show ?case
  proof (cases k)
    case 0
    with Cons.prems show ?thesis
      by (auto simp add: row Let_def split: option.splits if_splits)
  next
    case (Suc k')
    with Cons.prems Cons.IH [of k' "Suc lvl"] show ?thesis
      by (auto simp add: row Let_def split: option.splits if_splits)
  qed
qed

lemma walk_levels_unreadable_stops:
  "k < length (fst (walk_levels rd va off lvl rows tbl)) \<Longrightarrow>
   st_raw (fst (walk_levels rd va off lvl rows tbl) ! k) = None \<Longrightarrow>
     Suc k = length (fst (walk_levels rd va off lvl rows tbl))
     \<and> snd (walk_levels rd va off lvl rows tbl)
         = ReadError (lvl + k) (st_entry_pa (fst (walk_levels rd va off lvl rows tbl) ! k))"
proof (induction rows arbitrary: lvl tbl k)
  case Nil
  then show ?case by simp
next
  case (Cons row rows)
  obtain name idx shift block_mask where row: "row = (name, idx, shift, block_mask)"
    by (cases row) auto
  show ?case
  proof (cases k)
    case 0
    with Cons.prems show ?thesis
      by (auto simp add: row Let_def split: option.splits if_splits)
  next
    case (Suc k')
    with Cons.prems Cons.IH [of k' "Suc lvl"] show ?thesis
      by (auto simp add: row Let_def split: option.splits if_splits)
  qed
qed


section \<open>Printed lines and reported fields\<close>

lemma skipped_prints_nothing:
  "lvl \<le> 3 \<Longrightarrow> \<forall>j<512. shown_entry rd t lvl tgt j = None \<Longrightarrow>
     filter printed (walk_table rd t vs lvl tgt mx) = [Header lvl t]"
  "\<forall>j. i \<le> j \<and> j < 512 \<longrightarrow> shown_entry rd t lvl tgt j = None \<Longrightarrow>
     filter printed (walk_entries rd t vs lvl tgt mx i sh) = []"
proof (induction rd t vs lvl tgt mx and rd t vs lvl tgt mx i sh rule: walk_induct)
  case (table rd t vs lvl tgt mx)
  from table.prems(2) have "\<forall>j. 0 \<le> j \<and> j < 512 \<longrightarrow> shown_entry rd t lvl tgt j = None"
    by simp
  from table.IH [OF table.prems(1) this] table.prems(1) show ?case
    by (simp add: walk_table_step)
next
  case (entries rd t vs lvl tgt mx i sh)
  show ?case
  proof (cases "i < 512")
    case False
    then show ?thesis by (subst walk_entries_step) simp
  next
    case i: True
    with entries.prems have n: "shown_entry rd t lvl tgt i = None" by simp
    from entries.prems
    have "\<forall>j. Suc i \<le> j \<and> j < 512 \<longrightarrow> shown_entry rd t lvl tgt j = None" by simp
    from entries.IH(1) [OF i n this] n i show ?thesis
      by (subst walk_entries_step) simp
  qed
qed


lemma levels_rows:
  "levels va ! 1 = (''L1 (PUD)'', drop_bit 30 va AND 0x1FF, 30, Some 0x0000FFFFC0000000)"
  "levels va ! 2 = (''L2 (PMD)'', drop_bit 21 va AND 0x1FF, 21, Some 0x0000FFFFFFE00000)"
  "length (levels va) = 4"
  "levels va ! Suc 0 = (''L1 (PUD)'', drop_bit 30 va AND 0x1FF, 30, Some 0x0000FFFFC0000000)"
  by (simp_all add: levels_def)

lemma do_walk_Inr:
  "do_walk regs rd va = Inr r \<Longrightarrow>
     wr_steps r = fst (walk_levels rd va (va AND 0xFFF) 0 (levels va) (wr_table_pa r))
     \<and> wr_outcome r = snd (walk_levels rd va (va AND 0xFFF) 0 (levels va) (wr_table_pa r))
     \<and> wr_table_pa r = wr_ttbr r AND 0x0000FFFFFFFFF000
     \<and> read_reg regs (wr_ttbr_name r) = Some (wr_ttbr r)
     \<and> wr_ttbr_name r = (if drop_bit 55 va AND 1 \<noteq> 0 then ''TTBR1_EL1'' else ''TTBR0_EL1'')
     \<and> wr_l0_idx r = drop_bit 39 va AND 0x1FF"
  by (auto simp add: do_walk_def Let_def split: option.splits)

lemma scenario_walk:
  "do_walk example_regs scenario_memory 0x123456789 = Inr scenario_report"
  by (simp add: do_walk_def read_reg_def levels_def Let_def example_regs_def
      scenario_memory_def scenario_report_def)

lemma bit_as_shift: "drop_bit n (x::int) AND 1 \<noteq> 0 \<longleftrightarrow> bit x n"
  by (simp add: bit_iff_odd_drop_bit and_one_eq odd_iff_mod_2_eq_one)

lemma b55: "bit (0x0080000000000000::int) 55"
  by (simp add: bit_iff_odd_drop_bit drop_bit_eq_div)

section \<open>Further facts for the claims\<close>

lemma level0_walk: "do_walk example_regs block_memory 0 = Inr level0_report"
  by (simp add: do_walk_def read_reg_def levels_def Let_def example_regs_def
      block_memory_def level0_report_def)

lemma fault_walk: "do_walk example_regs zero_memory 0x123456789 = Inr fault_report"
  by (simp add: do_walk_def read_reg_def levels_def Let_def example_regs_def
      zero_memory_def fault_report_def)

lemma walk_levels_first:
  "rows \<noteq> [] \<Longrightarrow>
     fst (walk_levels rd va off lvl rows tbl) \<noteq> []
     \<and> st_level (hd (fst (walk_levels rd va off lvl rows tbl))) = lvl
     \<and> st_table (hd (fst (walk_levels rd va off lvl rows tbl))) = tbl"
proof (cases rows)
  case Nil
  assume "rows \<noteq> []"
  with Nil show ?thesis by simp
next
  case (Cons row rest)
  obtain name idx shift block_mask where row: "row = (name, idx, shift, block_mask)"
    by (cases row) auto
  show ?thesis
    unfolding Cons row by (auto simp add: Let_def split: option.splits)
qed

lemma level0_follows:
  assumes a: "do_walk regs rd va = Inr r"
    and e: "rd (wr_table_pa r + wr_l0_idx r * 8) = Some e" "e AND 1 \<noteq> 0"
  shows "2 \<le> length (wr_steps r) \<and> st_raw (wr_steps r ! 0) = Some e
     \<and> st_level (wr_steps r ! 1) = 1 \<and> st_table (wr_steps r ! 1) = e AND 0x0000FFFFFFFFF000"
proof -
  let ?rest = "[(''L1 (PUD)'', drop_bit 30 va AND 0x1FF, 30::nat, Some (0x0000FFFFC0000000::int)),
      (''L2 (PMD)'', drop_bit 21 va AND 0x1FF, 21, Some 0x0000FFFFFFE00000),
      (''L3 (PTE)'', drop_bit 12 va AND 0x1FF, 12, Some 0x0000FFFFFFFFF000)]"
  let ?next = "walk_levels rd va (va AND 0xFFF) (Suc 0) ?rest (e AND 0x0000FFFFFFFFF000)"
  from do_walk_Inr [OF a] e
  have s: "wr_steps r =
      \<lparr>st_level = 0, st_table = wr_table_pa r, st_index = wr_l0_idx r,
        st_entry_pa = wr_table_pa r + wr_l0_idx r * 8, st_raw = Some e\<rparr> # fst ?next"
    by (simp add: levels_def Let_def)
  have "?rest \<noteq> []" by simp
  from walk_levels_first [OF this, of rd va "va AND 0xFFF" "Suc 0" "e AND 0x0000FFFFFFFFF000"]
  obtain st sts where n: "fst ?next = st # sts" "st_level st = Suc 0"
    "st_table st = e AND 0x0000FFFFFFFFF000"
    by (cases "fst ?next") auto
  show ?thesis unfolding s n by (simp add: n)
qed

lemma block_memory_target_walk:
  "filter printed (walk_table block_memory 0 0 0 (Some 0) 512) =
     [Header 0 0,
      Entry 0 0 0 (LEAF ''BLOCK'' 0 ''512GB'' ''RW_EL1'' ''Exec'' ''Non-share'' ''NotAccessed'') 1]"
proof -
  have s0: "shown_entry block_memory 0 0 (Some 0) 0 = Some 1"
    by (simp add: shown_entry_def block_memory_def bits_per_level_def)
  have "\<forall>j. Suc 0 \<le> j \<and> j < 512 \<longrightarrow> shown_entry block_memory 0 0 (Some 0) j = None"
    by (simp add: shown_entry_def block_memory_def bits_per_level_def)
  then have rest: "filter printed (walk_entries block_memory 0 0 0 (Some 0) 512 (Suc 0) (Suc 0)) = []"
    by (rule skipped_prints_nothing(2))
  have "filter printed (walk_entries block_memory 0 0 0 (Some 0) 512 0 0) =
     [Entry 0 0 0 (LEAF ''BLOCK'' 0 ''512GB'' ''RW_EL1'' ''Exec'' ''Non-share'' ''NotAccessed'') 1]"
    by (subst walk_entries_step)
       (simp add: s0 rest child_table_def entry_va_def bits_per_level_def decode_pte_def Let_def)
  then show ?thesis by (simp add: walk_table_step)
qed

lemma cyclic_first_entry:
  "walk_entries cyclic_memory 0 0 0 tgt mx 0 0 =
     Read 0 # Entry 0 0 0 (TABLE 0) 3 # walk_table cyclic_memory 0 0 (Suc 0) tgt mx @
     (if mx \<le> 1 \<and> tgt = None then [Truncated 0 (Suc 0)]
      else walk_entries cyclic_memory 0 0 0 tgt mx (Suc 0) (Suc 0))"
  if "tgt = None \<or> tgt = Some 0"
proof -
  from that have s0: "shown_entry cyclic_memory 0 0 tgt 0 = Some 3"
    by (auto simp add: shown_entry_def cyclic_memory_def bits_per_level_def)
  show ?thesis
    by (subst walk_entries_step)
       (simp add: s0 child_table_def entry_va_def bits_per_level_def decode_pte_def Let_def)
qed


lemma invalid_target_entry:
  assumes "lvl \<le> 3" "int j = drop_bit (bits_per_level ! lvl) tv AND 0x1FF"
    "rd (t + int j * 8) = Some e" "e AND 1 = 0"
  shows "filter printed (walk_table rd t vs lvl (Some tv) mx) = [Header lvl t]"
proof -
  have "shown_entry rd t lvl (Some tv) j' = None" for j'
  proof (cases "j' = j")
    case True
    with assms(3,4) show ?thesis by (simp add: shown_entry_def)
  next
    case False
    with assms(2) have "int j' \<noteq> drop_bit (bits_per_level ! lvl) tv AND 0x1FF" by simp
    then show ?thesis by (simp add: shown_entry_def split: option.splits)
  qed
  then have "\<forall>j'<512. shown_entry rd t lvl (Some tv) j' = None" by simp
  from skipped_prints_nothing(1) [OF assms(1) this] show ?thesis .
qed

lemma decode_valid:
  "raw AND 1 \<noteq> 0 \<Longrightarrow> decode_pte (Some raw) l \<noteq> UNREADABLE \<and> decode_pte (Some raw) l \<noteq> INVALID"
  by (simp add: decode_pte_def Let_def)

lemma holey_prefix:
  "walk_table holey_memory 0 0 0 None 10 =
     Header 0 0 # Read 0 # Read 8 # Read 16 #
     Entry 0 2 0x10000000000
       (LEAF ''BLOCK'' 0 ''512GB'' ''RW_EL1'' ''Exec'' ''Non-share'' ''NotAccessed'') 1 #
     walk_entries holey_memory 0 0 0 None 10 (Suc (Suc (Suc 0))) (Suc 0)"
proof -
  have s: "shown_entry holey_memory 0 0 None 0 = None"
    "shown_entry holey_memory 0 0 None (Suc 0) = None"
    "shown_entry holey_memory 0 0 None (Suc (Suc 0)) = Some 1"
    by (simp_all add: shown_entry_def holey_memory_def)
  have 2: "walk_entries holey_memory 0 0 0 None 10 (Suc (Suc 0)) 0 =
      Read 16 # Entry 0 2 0x10000000000
       (LEAF ''BLOCK'' 0 ''512GB'' ''RW_EL1'' ''Exec'' ''Non-share'' ''NotAccessed'') 1 #
     walk_entries holey_memory 0 0 0 None 10 (Suc (Suc (Suc 0))) (Suc 0)"
    by (subst walk_entries_step)
       (simp add: s child_table_def entry_va_def bits_per_level_def decode_pte_def Let_def)
  have 1: "walk_entries holey_memory 0 0 0 None 10 (Suc 0) 0 =
      Read 8 # walk_entries holey_memory 0 0 0 None 10 (Suc (Suc 0)) 0"
    by (subst walk_entries_step) (simp add: s)
  have 0: "walk_entries holey_memory 0 0 0 None 10 0 0 =
      Read 0 # walk_entries holey_memory 0 0 0 None 10 (Suc 0) 0"
    by (subst walk_entries_step) (simp add: s)
  show ?thesis by (simp add: walk_table_step 0 1 2)
qed



lemma subtree_reads_mono: "d \<le> d' \<Longrightarrow> subtree_reads d \<le> subtree_reads d'"
proof (induction d' arbitrary: d)
  case 0
  then show ?case by simp
next
  case (Suc d')
  show ?case
  proof (cases d)
    case 0
    then show ?thesis by simp
  next
    case (Suc k)
    with Suc.prems Suc.IH [of k] show ?thesis by simp
  qed
qed

lemma subtree_reads_4: "subtree_reads 4 = 68853957120"
proof -
  have "(4::nat) = Suc (Suc (Suc (Suc 0)))" by simp
  then have "subtree_reads 4 = subtree_reads (Suc (Suc (Suc (Suc 0))))" by (rule arg_cong)
  also have "\<dots> = 68853957120" by simp
  finally show ?thesis .
qed

lemma index_field:
  "0 \<le> drop_bit s (va::int) AND 0x1FF" "drop_bit s va AND 0x1FF < 512"
  "bit (drop_bit s va AND 0x1FF) n \<longleftrightarrow> n < 9 \<and> bit va (s + n)"
  using take_bit_int_less_exp [of 9 "drop_bit s va"]
  by (simp_all add: and_0x1FF bit_take_bit_iff bit_drop_bit_eq)

lemma offset_field:
  "0 \<le> (va::int) AND 0xFFF" "va AND 0xFFF < 4096"
  "bit (va AND 0xFFF) n \<longleftrightarrow> n < 12 \<and> bit va n"
  using take_bit_int_less_exp [of 12 va]
  by (simp_all add: and_0xFFF bit_take_bit_iff)

lemma walk_levels_step_index:
  "k < length (fst (walk_levels rd va off lvl rows tbl)) \<Longrightarrow>
     st_index (fst (walk_levels rd va off lvl rows tbl) ! k) = fst (snd (rows ! k))
     \<and> st_entry_pa (fst (walk_levels rd va off lvl rows tbl) ! k)
         = st_table (fst (walk_levels rd va off lvl rows tbl) ! k)
           + fst (snd (rows ! k)) * 8"
proof (induction rows arbitrary: lvl tbl k)
  case Nil
  then show ?case by simp
next
  case (Cons row rows)
  obtain name idx shift block_mask where row: "row = (name, idx, shift, block_mask)"
    by (cases row) auto
  show ?case
  proof (cases k)
    case 0
    then show ?thesis
      by (auto simp add: row Let_def split: option.splits)
  next
    case (Suc k')
    with Cons.prems Cons.IH [of k' "Suc lvl"] show ?thesis
      by (auto simp add: row Let_def split: option.splits if_splits)
  qed
qed

lemma mask64_then_47_12:
  "((v::int) AND 0xFFFFFFFFFFFFFFFF) AND 0x0000FFFFFFFFF000 = v AND 0x0000FFFFFFFFF000"
proof -
  have m: "(0xFFFFFFFFFFFFFFFF::int) = mask 64" by (simp add: mask_eq_exp_minus_1)
  show ?thesis
    by (rule bit_eqI) (simp only: bit_and_47_12, auto simp add: m bit_and_iff bit_mask_iff)
qed

lemma mask48_then_47_12:
  "((v::int) AND 0x0000FFFFFFFFFFFF) AND 0x0000FFFFFFFFF000 = v AND 0x0000FFFFFFFFF000"
proof -
  have m: "(0x0000FFFFFFFFFFFF::int) = mask 48" by (simp add: mask_eq_exp_minus_1)
  show ?thesis
    by (rule bit_eqI) (simp only: bit_and_47_12, auto simp add: m bit_and_iff bit_mask_iff)
qed

lemma kernel_fault_walk:
  "do_walk example_regs zero_memory 0xFFFFABCD12345678 = Inr kernel_fault_report"
  by (simp add: do_walk_def read_reg_def levels_def Let_def example_regs_def zero_memory_def
      kernel_fault_report_def)

lemma split_walk:
  "do_walk split_regs no_memory 0x0080000000000000 = Inr split_report"
  by (simp add: do_walk_def read_reg_def levels_def Let_def split_regs_def no_memory_def
      split_report_def)

section \<open>Address decomposition\<close>

text \<open>
  Claim C2. For every virtual address \<open>va\<close>, the four level indices are 9-bit fields of the
  address: each lies between 0 and 511, and its bits are bits 47 to 39, 38 to 30, 29 to 21
  and 20 to 12 of \<open>va\<close>; the offset lies between 0 and 4095 and is bits 11 to 0. Together
  they rebuild the low 48 bits: \<open>(idx0<<39) | (idx1<<30) | (idx2<<21) | (idx3<<12) | offset\<close>
  is \<open>va & 0xFFFFFFFFFFFF\<close>. The indices of the rows of \<^verbatim>\<open>levels\<close> are bit extractions
  of the address alone, with no failing case; whenever \<^verbatim>\<open>do_walk\<close> gets past the register
  read, the fields it reports are these, whatever the memory holds, and each step of the
  walk reads the entry of its table at the index of its level.
\<close>

theorem decompose_reconstructs:
  "(0 \<le> fst (snd (levels va ! 0)) \<and> fst (snd (levels va ! 0)) < 512
      \<and> (\<forall>n. bit (fst (snd (levels va ! 0))) n \<longleftrightarrow> n < 9 \<and> bit va (39 + n)))
   \<and> (0 \<le> fst (snd (levels va ! 1)) \<and> fst (snd (levels va ! 1)) < 512
      \<and> (\<forall>n. bit (fst (snd (levels va ! 1))) n \<longleftrightarrow> n < 9 \<and> bit va (30 + n)))
   \<and> (0 \<le> fst (snd (levels va ! 2)) \<and> fst (snd (levels va ! 2)) < 512
      \<and> (\<forall>n. bit (fst (snd (levels va ! 2))) n \<longleftrightarrow> n < 9 \<and> bit va (21 + n)))
   \<and> (0 \<le> fst (snd (levels va ! 3)) \<and> fst (snd (levels va ! 3)) < 512
      \<and> (\<forall>n. bit (fst (snd (levels va ! 3))) n \<longleftrightarrow> n < 9 \<and> bit va (12 + n)))
   \<and> (push_bit 39 (fst (snd (levels va ! 0))) OR push_bit 30 (fst (snd (levels va ! 1)))
      OR push_bit 21 (fst (snd (levels va ! 2))) OR push_bit 12 (fst (snd (levels va ! 3)))
      OR (va AND 0xFFF) = va AND 0xFFFFFFFFFFFF)
   \<and> (do_walk regs rd va = Inr r \<longrightarrow>
      wr_l0_idx r = fst (snd (levels va ! 0)) \<and> wr_l1_idx r = fst (snd (levels va ! 1))
      \<and> wr_l2_idx r = fst (snd (levels va ! 2)) \<and> wr_l3_idx r = fst (snd (levels va ! 3))
      \<and> 0 \<le> wr_offset r \<and> wr_offset r < 4096
      \<and> (\<forall>n. bit (wr_offset r) n \<longleftrightarrow> n < 12 \<and> bit va n)
      \<and> push_bit 39 (wr_l0_idx r) OR push_bit 30 (wr_l1_idx r) OR push_bit 21 (wr_l2_idx r)
          OR push_bit 12 (wr_l3_idx r) OR wr_offset r = va AND 0xFFFFFFFFFFFF
      \<and> (\<forall>k<length (wr_steps r).
            st_index (wr_steps r ! k) = [wr_l0_idx r, wr_l1_idx r, wr_l2_idx r, wr_l3_idx r] ! k
            \<and> st_entry_pa (wr_steps r ! k)
                = st_table (wr_steps r ! k) + st_index (wr_steps r ! k) * 8))"
proof -
  have rows: "fst (snd (levels va ! 0)) = drop_bit 39 va AND 0x1FF"
    "fst (snd (levels va ! 1)) = drop_bit 30 va AND 0x1FF"
    "fst (snd (levels va ! 2)) = drop_bit 21 va AND 0x1FF"
    "fst (snd (levels va ! 3)) = drop_bit 12 va AND 0x1FF"
    by (simp_all add: levels_def)
  have eq: "push_bit 39 (drop_bit 39 va AND 0x1FF) OR push_bit 30 (drop_bit 30 va AND 0x1FF)
      OR push_bit 21 (drop_bit 21 va AND 0x1FF) OR push_bit 12 (drop_bit 12 va AND 0x1FF)
      OR (va AND 0xFFF) = va AND 0xFFFFFFFFFFFF"
    unfolding and_0x1FF and_0xFFF and_low48 by (rule reconstruct_low48)
  have walk: "wr_l0_idx r = drop_bit 39 va AND 0x1FF \<and> wr_l1_idx r = drop_bit 30 va AND 0x1FF
      \<and> wr_l2_idx r = drop_bit 21 va AND 0x1FF \<and> wr_l3_idx r = drop_bit 12 va AND 0x1FF
      \<and> wr_offset r = va AND 0xFFF
      \<and> (\<forall>k<length (wr_steps r).
            st_index (wr_steps r ! k) = [wr_l0_idx r, wr_l1_idx r, wr_l2_idx r, wr_l3_idx r] ! k
            \<and> st_entry_pa (wr_steps r ! k)
                = st_table (wr_steps r ! k) + st_index (wr_steps r ! k) * 8)"
    if a: "do_walk regs rd va = Inr r"
  proof -
    let ?w = "walk_levels rd va (va AND 0xFFF) 0 (levels va) (wr_table_pa r)"
    from a have f: "wr_l0_idx r = drop_bit 39 va AND 0x1FF" "wr_l1_idx r = drop_bit 30 va AND 0x1FF"
      "wr_l2_idx r = drop_bit 21 va AND 0x1FF" "wr_l3_idx r = drop_bit 12 va AND 0x1FF"
      "wr_offset r = va AND 0xFFF"
      by (auto simp add: do_walk_def Let_def split: option.splits)
    from do_walk_Inr [OF a] have s: "wr_steps r = fst ?w" by simp
    have "st_index (wr_steps r ! k) = [wr_l0_idx r, wr_l1_idx r, wr_l2_idx r, wr_l3_idx r] ! k
        \<and> st_entry_pa (wr_steps r ! k)
            = st_table (wr_steps r ! k) + st_index (wr_steps r ! k) * 8"
      if k: "k < length (wr_steps r)" for k
    proof -
      from k s walk_levels_length [of rd va "va AND 0xFFF" 0 "levels va" "wr_table_pa r"]
      have k4: "k < 4" by (simp add: levels_rows(3))
      then consider "k = 0" | "k = 1" | "k = 2" | "k = 3" by linarith
      then have "fst (snd (levels va ! k))
          = [wr_l0_idx r, wr_l1_idx r, wr_l2_idx r, wr_l3_idx r] ! k"
        by cases (simp_all add: f levels_def)
      with walk_levels_step_index [of k rd va "va AND 0xFFF" 0 "levels va" "wr_table_pa r"] k s
      show ?thesis by simp
    qed
    with f show ?thesis by blast
  qed
  show ?thesis
    unfolding rows
    using eq index_field [of 39 va] index_field [of 30 va] index_field [of 21 va]
      index_field [of 12 va] offset_field [of va] walk
    by (intro conjI impI allI) (simp_all del: bit_and_iff)
qed

theorem decompose_reconstructs_witness:
  "do_walk example_regs zero_memory 0xFFFFABCD12345678 = Inr kernel_fault_report
   \<and> wr_l0_idx kernel_fault_report = 343 \<and> wr_l1_idx kernel_fault_report = 308
   \<and> wr_l2_idx kernel_fault_report = 145 \<and> wr_l3_idx kernel_fault_report = 325
   \<and> wr_offset kernel_fault_report = 0x678
   \<and> fst (snd (levels 0xFFFFABCD12345678 ! 0)) = 343
   \<and> fst (snd (levels 0xFFFFABCD12345678 ! 3)) = 325
   \<and> push_bit 39 (343::int) OR push_bit 30 308 OR push_bit 21 145 OR push_bit 12 325 OR 0x678
       = 0xABCD12345678
   \<and> (0xFFFFABCD12345678::int) AND 0xFFFFFFFFFFFF = 0xABCD12345678
   \<and> (0::nat) < length (wr_steps kernel_fault_report)
   \<and> st_index (wr_steps kernel_fault_report ! 0) = 343
   \<and> st_entry_pa (wr_steps kernel_fault_report ! 0)
       = st_table (wr_steps kernel_fault_report ! 0) + 343 * 8"
proof -
  from decompose_reconstructs [of "0xFFFFABCD12345678" example_regs zero_memory
      kernel_fault_report] kernel_fault_walk
  have "\<forall>k<length (wr_steps kernel_fault_report).
      st_index (wr_steps kernel_fault_report ! k)
        = [wr_l0_idx kernel_fault_report, wr_l1_idx kernel_fault_report,
           wr_l2_idx kernel_fault_report, wr_l3_idx kernel_fault_report] ! k
      \<and> st_entry_pa (wr_steps kernel_fault_report ! k)
          = st_table (wr_steps kernel_fault_report ! k)
            + st_index (wr_steps kernel_fault_report ! k) * 8"
    by blast
  moreover have "(0::nat) < length (wr_steps kernel_fault_report)"
    by (simp add: kernel_fault_report_def)
  ultimately have "st_index (wr_steps kernel_fault_report ! 0)
        = [wr_l0_idx kernel_fault_report, wr_l1_idx kernel_fault_report,
           wr_l2_idx kernel_fault_report, wr_l3_idx kernel_fault_report] ! 0
      \<and> st_entry_pa (wr_steps kernel_fault_report ! 0)
          = st_table (wr_steps kernel_fault_report ! 0)
            + st_index (wr_steps kernel_fault_report ! 0) * 8"
    by blast
  with kernel_fault_walk show ?thesis
    by (simp add: kernel_fault_report_def levels_def)
qed


section \<open>Block mappings\<close>




section \<open>The root of the walk\<close>

text \<open>
  Claim C3. The claim holds for \<^verbatim>\<open>walk_va\<close>, which masks the register with
  \<open>0x0000FFFFFFFFF000\<close>. \<^verbatim>\<open>arm64_walk_pagetable\<close> masks it with \<open>0x0000FFFFFFFFFFFF\<close> and
  keeps the low 12 bits: with \<open>TTBR0_EL1 = 0x40000001\<close> it walks the table at
  \<open>0x40000001\<close> and reads its first entry there, where \<^verbatim>\<open>walk_va\<close> takes \<open>0x40000000\<close>
  as the table base.
\<close>

theorem invoke_base_keeps_low_bits:
  "take 4 (invoke cnp_regs no_memory None) =
     [SysRegs (Some 0x40000001) (Some 0x40000001) (Some 0x40000001) (Some 0x40000001),
      Dump ''TTBR0'', Header 0 0x40000001, Read 0x40000001]
   \<and> (case do_walk cnp_regs no_memory 0 of Inl name \<Rightarrow> False
       | Inr r \<Rightarrow> wr_table_pa r = 0x40000000)"
proof -
  have w: "walk_entries no_memory 0x40000001 0 0 None 10 0 0 =
      Read 0x40000001 # walk_entries no_memory 0x40000001 0 0 None 10 (Suc 0) 0"
    by (subst walk_entries_step) (simp add: shown_entry_def no_memory_def)
  have "take 4 (invoke cnp_regs no_memory None) =
     [SysRegs (Some 0x40000001) (Some 0x40000001) (Some 0x40000001) (Some 0x40000001),
      Dump ''TTBR0'', Header 0 0x40000001, Read 0x40000001]"
    by (simp add: invoke_def Let_def read_sysreg_def cnp_regs_def walk_table_step w)
  moreover have "case do_walk cnp_regs no_memory 0 of Inl name \<Rightarrow> False
       | Inr r \<Rightarrow> wr_table_pa r = 0x40000000"
    by (simp add: do_walk_def read_reg_def levels_def Let_def cnp_regs_def no_memory_def)
  ultimately show ?thesis by simp
qed

text \<open>
  Claim C4, as amended. \<^verbatim>\<open>walk_va\<close> (\<^verbatim>\<open>do_walk\<close>) takes \<^verbatim>\<open>TTBR1_EL1\<close> exactly when
  bit 55 of the address is set and \<^verbatim>\<open>TTBR0_EL1\<close> otherwise, whatever the other upper
  bits are: the table it walks, and the address of the first entry it reads, come from
  the value of that register. \<^verbatim>\<open>arm64_walk_pagetable\<close> with a target address takes TTBR1
  exactly when the address is at least \<open>0xFFFF000000000000\<close> and TTBR0 otherwise, and
  walks the table whose bits 47 to 12 are those of that register, so there an address with
  bit 55 set whose upper bits are not all ones is walked from TTBR0.
\<close>

theorem root_selection:
  "(do_walk regs rd va = Inr r \<longrightarrow>
      (\<exists>v. regs (if bit va 55 then ''TTBR1_EL1'' else ''TTBR0_EL1'') = Some v
         \<and> wr_ttbr_name r = (if bit va 55 then ''TTBR1_EL1'' else ''TTBR0_EL1'')
         \<and> wr_ttbr r = v AND 0xFFFFFFFFFFFFFFFF
         \<and> wr_table_pa r = v AND 0x0000FFFFFFFFF000
         \<and> wr_steps r \<noteq> []
         \<and> st_table (hd (wr_steps r)) = v AND 0x0000FFFFFFFFF000
         \<and> st_entry_pa (hd (wr_steps r))
             = (v AND 0x0000FFFFFFFFF000) + (drop_bit 39 va AND 0x1FF) * 8))
   \<and> (do_walk regs rd va = Inl name \<longrightarrow>
      name = (if bit va 55 then ''TTBR1_EL1'' else ''TTBR0_EL1'') \<and> regs name = None)
   \<and> (case regs (if t \<ge> 0xFFFF000000000000 then ''TTBR1_EL1'' else ''TTBR0_EL1'') of
         None \<Rightarrow>
           drop 2 (invoke regs rd (Some t)) =
             [CannotRead (if t \<ge> 0xFFFF000000000000 then ''TTBR1_EL1'' else ''TTBR0_EL1'')]
       | Some v \<Rightarrow>
           (\<exists>base. base AND 0x0000FFFFFFFFF000 = v AND 0x0000FFFFFFFFF000
              \<and> drop 2 (invoke regs rd (Some t)) =
                  Using (if t \<ge> 0xFFFF000000000000 then ''TTBR1'' else ''TTBR0'') base
                  # walk_table rd base (if t \<ge> 0xFFFF000000000000 then 0xFFFF000000000000 else 0)
                      0 (Some t) 512))"
proof (intro conjI impI)
  assume a: "do_walk regs rd va = Inr r"
  let ?name = "if bit va 55 then ''TTBR1_EL1'' else ''TTBR0_EL1''"
  let ?w = "walk_levels rd va (va AND 0xFFF) 0 (levels va) (wr_table_pa r)"
  from do_walk_Inr [OF a]
  have n0: "wr_ttbr_name r
      = (if drop_bit 55 va AND 1 \<noteq> 0 then ''TTBR1_EL1'' else ''TTBR0_EL1'')"
    and rr: "read_reg regs (wr_ttbr_name r) = Some (wr_ttbr r)"
    and tp: "wr_table_pa r = wr_ttbr r AND 0x0000FFFFFFFFF000" and s: "wr_steps r = fst ?w"
    by blast+
  from n0 have n: "wr_ttbr_name r = ?name" by (simp add: bit_as_shift)
  from rr n obtain v where v: "regs ?name = Some v" "wr_ttbr r = v AND 0xFFFFFFFFFFFFFFFF"
    by (auto simp add: read_reg_def split: option.splits)
  from tp v have tp': "wr_table_pa r = v AND 0x0000FFFFFFFFF000"
    by (simp add: mask64_then_47_12)
  have "levels va \<noteq> []" by (simp add: levels_def)
  from walk_levels_first [OF this, of rd va "va AND 0xFFF" 0 "wr_table_pa r"] s
  have ne: "wr_steps r \<noteq> []" and ht: "st_table (hd (wr_steps r)) = wr_table_pa r"
    by simp_all
  from ne have "0 < length (wr_steps r)" by simp
  from walk_levels_step_index [of 0 rd va "va AND 0xFFF" 0 "levels va" "wr_table_pa r"] this s ne
  have "st_entry_pa (hd (wr_steps r))
      = st_table (hd (wr_steps r)) + fst (snd (levels va ! 0)) * 8"
    by (simp add: hd_conv_nth)
  with ht tp' have he: "st_entry_pa (hd (wr_steps r))
      = (v AND 0x0000FFFFFFFFF000) + (drop_bit 39 va AND 0x1FF) * 8"
    by (simp add: levels_def)
  from v n tp' ne ht he
  show "\<exists>v. regs ?name = Some v \<and> wr_ttbr_name r = ?name
         \<and> wr_ttbr r = v AND 0xFFFFFFFFFFFFFFFF
         \<and> wr_table_pa r = v AND 0x0000FFFFFFFFF000
         \<and> wr_steps r \<noteq> []
         \<and> st_table (hd (wr_steps r)) = v AND 0x0000FFFFFFFFF000
         \<and> st_entry_pa (hd (wr_steps r))
             = (v AND 0x0000FFFFFFFFF000) + (drop_bit 39 va AND 0x1FF) * 8"
    by simp
next
  assume "do_walk regs rd va = Inl name"
  then show "name = (if bit va 55 then ''TTBR1_EL1'' else ''TTBR0_EL1'')"
    and "regs name = None"
    by (auto simp add: do_walk_def Let_def bit_as_shift read_reg_def
        split: option.splits if_splits)
next
  show "case regs (if t \<ge> 0xFFFF000000000000 then ''TTBR1_EL1'' else ''TTBR0_EL1'') of
         None \<Rightarrow>
           drop 2 (invoke regs rd (Some t)) =
             [CannotRead (if t \<ge> 0xFFFF000000000000 then ''TTBR1_EL1'' else ''TTBR0_EL1'')]
       | Some v \<Rightarrow>
           (\<exists>base. base AND 0x0000FFFFFFFFF000 = v AND 0x0000FFFFFFFFF000
              \<and> drop 2 (invoke regs rd (Some t)) =
                  Using (if t \<ge> 0xFFFF000000000000 then ''TTBR1'' else ''TTBR0'') base
                  # walk_table rd base (if t \<ge> 0xFFFF000000000000 then 0xFFFF000000000000 else 0)
                      0 (Some t) 512)"
  proof (cases "t \<ge> 0xFFFF000000000000")
    case True
    show ?thesis
    proof (cases "regs ''TTBR1_EL1''")
      case None
      with True show ?thesis
        by (simp add: invoke_def Let_def read_sysreg_def)
    next
      case (Some v)
      have "(v AND 0x0000FFFFFFFFFFFF) AND 0x0000FFFFFFFFF000 = v AND 0x0000FFFFFFFFF000"
        by (rule mask48_then_47_12)
      with True Some show ?thesis
        by (auto simp add: invoke_def Let_def read_sysreg_def)
    qed
  next
    case False
    show ?thesis
    proof (cases "regs ''TTBR0_EL1''")
      case None
      with False show ?thesis
        by (simp add: invoke_def Let_def read_sysreg_def)
    next
      case (Some v)
      have "(v AND 0x0000FFFFFFFFFFFF) AND 0x0000FFFFFFFFF000 = v AND 0x0000FFFFFFFFF000"
        by (rule mask48_then_47_12)
      with False Some show ?thesis
        by (auto simp add: invoke_def Let_def read_sysreg_def)
    qed
  qed
qed

theorem root_selection_witness:
  "do_walk split_regs no_memory 0x0080000000000000 = Inr split_report
   \<and> bit (0x0080000000000000::int) 55
   \<and> split_regs ''TTBR1_EL1'' = Some 0x50000000 \<and> split_regs ''TTBR0_EL1'' = Some 0x40000000
   \<and> wr_ttbr_name split_report = ''TTBR1_EL1''
   \<and> wr_table_pa split_report = 0x50000000
   \<and> st_table (hd (wr_steps split_report)) = 0x50000000
   \<and> st_entry_pa (hd (wr_steps split_report)) = 0x50000000
   \<and> do_walk no_regs no_memory 0 = Inl ''TTBR0_EL1''
   \<and> \<not> bit (0::int) 55
   \<and> no_regs ''TTBR0_EL1'' = None
   \<and> take 4 (invoke split_regs no_memory (Some 0xFFFF800000000000)) =
       [SysRegs (Some 0x40000000) (Some 0x50000000) (Some 0x40000000) (Some 0x40000000),
        Walking 0xFFFF800000000000, Using ''TTBR1'' 0x50000000, Header 0 0x50000000]"
proof -
  have h: "do_walk no_regs no_memory 0 = Inl ''TTBR0_EL1''"
    by (simp add: do_walk_def read_reg_def Let_def no_regs_def)
  have i: "take 4 (invoke split_regs no_memory (Some 0xFFFF800000000000)) =
       [SysRegs (Some 0x40000000) (Some 0x50000000) (Some 0x40000000) (Some 0x40000000),
        Walking 0xFFFF800000000000, Using ''TTBR1'' 0x50000000, Header 0 0x50000000]"
    by (simp add: invoke_def Let_def read_sysreg_def split_regs_def walk_table_step)
  from root_selection [of split_regs no_memory "0x0080000000000000" split_report]
    root_selection [of no_regs no_memory 0 _ "''TTBR0_EL1''"] split_walk h b55 i
  show ?thesis
    by (simp add: split_report_def split_regs_def no_regs_def)
qed

text \<open>The claim as it was stated fails on \<^verbatim>\<open>arm64_walk_pagetable\<close>: the target
  \<open>0x0080000000000000\<close> has bit 55 set and is walked from TTBR0.\<close>

theorem root_selection_counterexample:
  "bit (0x0080000000000000::int) 55 \<and>
   take 4 (invoke split_regs no_memory (Some 0x0080000000000000)) =
     [SysRegs (Some 0x40000000) (Some 0x50000000) (Some 0x40000000) (Some 0x40000000),
      Walking 0x0080000000000000, Using ''TTBR0'' 0x40000000, Header 0 0x40000000]"
  by (simp add: b55 invoke_def Let_def read_sysreg_def split_regs_def walk_table_step)

section \<open>Level 0 descriptors\<close>

text \<open>
  Claim C5, as amended. \<^verbatim>\<open>walk_va\<close> (\<^verbatim>\<open>do_walk\<close>) follows every valid level 0 descriptor
  as a table: whatever bit 1 is, the walk goes on at level 1 in the table at
  \<open>raw & 0x0000FFFFFFFFF000\<close>. \<^verbatim>\<open>arm64_walk_pagetable\<close> consults bit 1 at level 0 as at
  levels 1 and 2: \<^verbatim>\<open>decode_pte\<close> reports a valid level 0 descriptor with bit 1 clear as a
  512GB block, and \<^verbatim>\<open>walk_table\<close> opens a level 1 table only under an entry that is
  readable, valid and has bit 1 set.
\<close>

theorem level0_descent:
  "(do_walk regs rd va = Inr r \<longrightarrow> rd (wr_table_pa r + wr_l0_idx r * 8) = Some e \<longrightarrow>
      e AND 1 \<noteq> 0 \<longrightarrow>
      2 \<le> length (wr_steps r) \<and> st_raw (wr_steps r ! 0) = Some e
      \<and> st_level (wr_steps r ! 1) = 1
      \<and> st_table (wr_steps r ! 1) = e AND 0x0000FFFFFFFFF000)
   \<and> (entry AND 1 \<noteq> 0 \<longrightarrow> drop_bit 1 entry AND 1 = 0 \<longrightarrow>
      (\<exists>ap_str xn_str sh_str af_str.
         decode_pte (Some entry) 0 =
           LEAF ''BLOCK'' (entry AND 0x0000FFFFFFFFF000) ''512GB'' ap_str xn_str sh_str af_str))
   \<and> (Header 1 a \<in> set (walk_table rd' t vs 0 tgt mx) \<longrightarrow>
      (\<exists>j raw. j < 512 \<and> rd' (t + int j * 8) = Some raw \<and> raw AND 1 \<noteq> 0
         \<and> drop_bit 1 raw AND 1 \<noteq> 0 \<and> a = raw AND 0x0000FFFFFFFFF000))"
proof (intro conjI impI)
  assume "do_walk regs rd va = Inr r" "rd (wr_table_pa r + wr_l0_idx r * 8) = Some e"
    "e AND 1 \<noteq> 0"
  from level0_follows [OF this]
  show "2 \<le> length (wr_steps r)" "st_raw (wr_steps r ! 0) = Some e"
    "st_level (wr_steps r ! 1) = 1" "st_table (wr_steps r ! 1) = e AND 0x0000FFFFFFFFF000"
    by blast+
next
  assume "entry AND 1 \<noteq> 0" "drop_bit 1 entry AND 1 = 0"
  then show "\<exists>ap_str xn_str sh_str af_str.
         decode_pte (Some entry) 0 =
           LEAF ''BLOCK'' (entry AND 0x0000FFFFFFFFF000) ''512GB'' ap_str xn_str sh_str af_str"
    by (simp add: decode_pte_def Let_def)
next
  assume "Header 1 a \<in> set (walk_table rd' t vs 0 tgt mx)"
  then have "Header (Suc 0) a \<in> set (walk_table rd' t vs 0 tgt mx)" by simp
  from descent(1) [OF _ this]
  obtain j raw where "j < 512" "shown_entry rd' t 0 tgt j = Some raw"
    "drop_bit 1 raw AND 1 \<noteq> 0" "a = raw AND 0x0000FFFFFFFFF000"
    by auto
  then show "\<exists>j raw. j < 512 \<and> rd' (t + int j * 8) = Some raw \<and> raw AND 1 \<noteq> 0
         \<and> drop_bit 1 raw AND 1 \<noteq> 0 \<and> a = raw AND 0x0000FFFFFFFFF000"
    unfolding shown_entry_Some by blast
qed

theorem level0_descent_witness:
  "do_walk example_regs block_memory 0 = Inr level0_report
   \<and> block_memory (wr_table_pa level0_report + wr_l0_idx level0_report * 8) = Some 1
   \<and> (1::int) AND 1 \<noteq> 0 \<and> drop_bit 1 (1::int) AND 1 = 0
   \<and> 2 \<le> length (wr_steps level0_report)
   \<and> st_level (wr_steps level0_report ! 1) = 1
   \<and> st_table (wr_steps level0_report ! 1) = 1 AND 0x0000FFFFFFFFF000
   \<and> (\<exists>ap_str xn_str sh_str af_str.
         decode_pte (Some 1) 0 = LEAF ''BLOCK'' (1 AND 0x0000FFFFFFFFF000) ''512GB''
           ap_str xn_str sh_str af_str)
   \<and> Header 1 0 \<in> set (walk_table cyclic_memory 0 0 0 (Some 0) 512)
   \<and> (\<exists>j raw. j < 512 \<and> cyclic_memory (0 + int j * 8) = Some raw \<and> raw AND 1 \<noteq> 0
         \<and> drop_bit 1 raw AND 1 \<noteq> 0 \<and> (0::int) = raw AND 0x0000FFFFFFFFF000)"
proof -
  have h1: "block_memory (wr_table_pa level0_report + wr_l0_idx level0_report * 8) = Some 1"
    by (simp add: block_memory_def)
  have h2: "Header 1 0 \<in> set (walk_table cyclic_memory 0 0 0 (Some 0) 512)"
    by (simp add: walk_table_step [of _ _ _ 0] walk_table_step [of _ _ _ "Suc 0"]
        cyclic_first_entry)
  from level0_descent [of example_regs block_memory 0 level0_report 1 1 0 cyclic_memory 0 0
      "Some 0" 512] level0_walk h1 h2
  show ?thesis by simp
qed

text \<open>The claim as it was stated fails on \<^verbatim>\<open>arm64_walk_pagetable\<close>: where the level 0
  entry of the target is the valid descriptor 1, bit 1 clear, the command prints the table
  header and the entry as a 512GB block, and nothing at level 1.\<close>

theorem level0_block_counterexample:
  "(1::int) AND 1 \<noteq> 0
   \<and> filter printed (walk_table block_memory 0 0 0 (Some 0) 512) =
     [Header 0 0,
      Entry 0 0 0 (LEAF ''BLOCK'' 0 ''512GB'' ''RW_EL1'' ''Exec'' ''Non-share'' ''NotAccessed'') 1]"
  by (simp add: block_memory_target_walk)

section \<open>The target filter\<close>




section \<open>Invalid entries\<close>

text \<open>
  Claim C7, as amended. In \<^verbatim>\<open>walk_va\<close> (\<^verbatim>\<open>do_walk\<close>), a descriptor fetched with bit 0
  clear ends the walk at its level: its step is the last one, its level is reported, and
  the outcome is the fault at that level, which carries no address. In
  \<^verbatim>\<open>arm64_walk_pagetable\<close> with a target, an invalid entry at the target's index also
  ends the walk along that path, but without any report: only the header of the table is
  printed.
\<close>

theorem invalid_entry_stops:
  "(do_walk regs rd va = Inr r \<longrightarrow> k < length (wr_steps r) \<longrightarrow>
      st_raw (wr_steps r ! k) = Some e \<longrightarrow> e AND 1 = 0 \<longrightarrow>
      Suc k = length (wr_steps r) \<and> st_level (wr_steps r ! k) = k \<and> wr_outcome r = Fault k)
   \<and> (lvl \<le> 3 \<longrightarrow> int j = drop_bit (bits_per_level ! lvl) tv AND 0x1FF \<longrightarrow>
      rd' (t + int j * 8) = Some e' \<longrightarrow> e' AND 1 = 0 \<longrightarrow>
      filter printed (walk_table rd' t vs lvl (Some tv) mx) = [Header lvl t])"
proof (intro conjI impI)
  assume a: "do_walk regs rd va = Inr r" and k: "k < length (wr_steps r)"
    and e: "st_raw (wr_steps r ! k) = Some e" "e AND 1 = 0"
  let ?w = "walk_levels rd va (va AND 0xFFF) 0 (levels va) (wr_table_pa r)"
  from do_walk_Inr [OF a] have s: "wr_steps r = fst ?w" and o: "wr_outcome r = snd ?w"
    by simp_all
  from walk_levels_invalid_stops [of k rd va "va AND 0xFFF" 0 "levels va" "wr_table_pa r" e]
    k e s o
  show "Suc k = length (wr_steps r)" "wr_outcome r = Fault k" by simp_all
  from walk_levels_step_levels [of k rd va "va AND 0xFFF" 0 "levels va" "wr_table_pa r"] k s
  show "st_level (wr_steps r ! k) = k" by simp
next
  assume "lvl \<le> 3" "int j = drop_bit (bits_per_level ! lvl) tv AND 0x1FF"
    "rd' (t + int j * 8) = Some e'" "e' AND 1 = 0"
  then show "filter printed (walk_table rd' t vs lvl (Some tv) mx) = [Header lvl t]"
    by (rule invalid_target_entry)
qed

theorem invalid_entry_stops_witness:
  "do_walk example_regs zero_memory 0x123456789 = Inr fault_report
   \<and> 0 < length (wr_steps fault_report) \<and> st_raw (wr_steps fault_report ! 0) = Some 0
   \<and> (0::int) AND 1 = 0
   \<and> Suc 0 = length (wr_steps fault_report) \<and> st_level (wr_steps fault_report ! 0) = 0
   \<and> wr_outcome fault_report = Fault 0
   \<and> (0::nat) \<le> 3 \<and> int 0 = drop_bit (bits_per_level ! 0) 0 AND 0x1FF
   \<and> zero_memory (0 + int 0 * 8) = Some 0
   \<and> filter printed (walk_table zero_memory 0 0 0 (Some 0) 512) = [Header 0 0]"
proof -
  have h: "0 < length (wr_steps fault_report)" "st_raw (wr_steps fault_report ! 0) = Some 0"
    by (simp_all add: fault_report_def)
  have z: "zero_memory (0 + int 0 * 8) = Some 0" "int 0 = drop_bit (bits_per_level ! 0) 0 AND 0x1FF"
    by (simp_all add: zero_memory_def)
  from invalid_entry_stops [of example_regs zero_memory "0x123456789" fault_report 0 0
      0 0 0 zero_memory 0 0 0 512] fault_walk h z
  show ?thesis by simp
qed

text \<open>The claim as it was stated fails on \<^verbatim>\<open>arm64_walk_pagetable\<close>: with every entry
  invalid, the command given the target 0 prints the registers, the root and the header of
  the level 0 table, and no fault.\<close>

theorem invalid_entry_silent_counterexample:
  "filter printed (invoke example_regs zero_memory (Some 0)) =
     [SysRegs (Some 0x40000000) (Some 0x40000000) (Some 0x40000000) (Some 0x40000000),
      Walking 0, Using ''TTBR0'' 0x40000000, Header 0 0x40000000]"
proof -
  have "filter printed (walk_table zero_memory 0x40000000 0 0 (Some 0) 512)
      = [Header 0 0x40000000]"
    by (rule invalid_target_entry [where j = 0 and e = 0])
       (simp_all add: zero_memory_def bits_per_level_def)
  then show ?thesis
    by (simp add: invoke_def Let_def read_sysreg_def example_regs_def)
qed

text \<open>
  Claim C8, as amended. During the full enumeration an index whose descriptor has the
  valid bit clear and an index whose read fails are treated alike: nothing is printed for
  either (no entry of that index appears for the table, and no entry printed is ever
  decoded as unreadable or invalid), and the loop goes on to the next index with the count
  of entries shown unchanged.
\<close>

theorem enumeration_skips:
  "(lvl \<le> 3 \<longrightarrow>
      (rd (t + int j * 8) = None \<or> (\<exists>e. rd (t + int j * 8) = Some e \<and> e AND 1 = 0)) \<longrightarrow>
      Entry lvl j va d raw \<notin> set (walk_table rd t vs lvl None mx))
   \<and> (Entry l j' va' d' raw' \<in> set (walk_table rd t vs lvl None mx) \<longrightarrow>
      d' \<noteq> UNREADABLE \<and> d' \<noteq> INVALID \<and> raw' AND 1 \<noteq> 0)
   \<and> (i < 512 \<longrightarrow>
      (rd (t + int i * 8) = None \<or> (\<exists>e. rd (t + int i * 8) = Some e \<and> e AND 1 = 0)) \<longrightarrow>
      walk_entries rd t vs lvl None mx i sh =
        Read (t + int i * 8) # walk_entries rd t vs lvl None mx (Suc i) sh)"
proof (intro conjI impI)
  assume lvl: "lvl \<le> 3"
    and s: "rd (t + int j * 8) = None \<or> (\<exists>e. rd (t + int j * 8) = Some e \<and> e AND 1 = 0)"
  show "Entry lvl j va d raw \<notin> set (walk_table rd t vs lvl None mx)"
  proof
    assume "Entry lvl j va d raw \<in> set (walk_table rd t vs lvl None mx)"
    from own_entries(1) [OF lvl this] have "rd (t + int j * 8) = Some raw" "raw AND 1 \<noteq> 0"
      unfolding shown_entry_Some by simp_all
    with s show False by auto
  qed
next
  assume "Entry l j' va' d' raw' \<in> set (walk_table rd t vs lvl None mx)"
  from entry_facts(1) [OF this] decode_valid [of raw' l]
  show "d' \<noteq> UNREADABLE" "d' \<noteq> INVALID" "raw' AND 1 \<noteq> 0" by simp_all
next
  assume i: "i < 512"
    and s: "rd (t + int i * 8) = None \<or> (\<exists>e. rd (t + int i * 8) = Some e \<and> e AND 1 = 0)"
  then have "shown_entry rd t lvl None i = None"
    unfolding shown_entry_None by blast
  with i show "walk_entries rd t vs lvl None mx i sh =
        Read (t + int i * 8) # walk_entries rd t vs lvl None mx (Suc i) sh"
    by (subst walk_entries_step) simp
qed

theorem enumeration_skips_witness:
  "holey_memory (0 + int 0 * 8) = None
   \<and> Entry 0 0 0 UNREADABLE 0 \<notin> set (walk_table holey_memory 0 0 0 None 10)
   \<and> Entry 0 2 0x10000000000
       (LEAF ''BLOCK'' 0 ''512GB'' ''RW_EL1'' ''Exec'' ''Non-share'' ''NotAccessed'') 1
       \<in> set (walk_table holey_memory 0 0 0 None 10)
   \<and> (1::int) AND 1 \<noteq> 0
   \<and> holey_memory (0 + int 1 * 8) = Some 0 \<and> (0::int) AND 1 = 0
   \<and> walk_entries holey_memory 0 0 0 None 10 1 0 =
       Read (0 + int 1 * 8) # walk_entries holey_memory 0 0 0 None 10 (Suc 1) 0"
proof -
  have h: "holey_memory (0 + int 0 * 8) = None" "holey_memory (0 + int 1 * 8) = Some 0"
    by (simp_all add: holey_memory_def)
  have m: "Entry 0 2 0x10000000000
       (LEAF ''BLOCK'' 0 ''512GB'' ''RW_EL1'' ''Exec'' ''Non-share'' ''NotAccessed'') 1
       \<in> set (walk_table holey_memory 0 0 0 None 10)"
    by (simp add: holey_prefix)
  from enumeration_skips [of 0 holey_memory 0 0 0 UNREADABLE 0 0 10 0 2 "0x10000000000"
      "LEAF ''BLOCK'' 0 ''512GB'' ''RW_EL1'' ''Exec'' ''Non-share'' ''NotAccessed''" 1 1 0] h m
  show ?thesis by simp
qed

text \<open>The claim as it was stated fails: where no address is readable, the enumeration
  prints the header of the table and flags nothing.\<close>

theorem unreadable_not_flagged_counterexample:
  "no_memory 0 = None
   \<and> filter printed (walk_table no_memory 0 0 0 None 10) = [Header 0 0]"
proof -
  have "\<forall>j<512. shown_entry no_memory 0 0 None j = None"
    by (simp add: shown_entry_def no_memory_def)
  from skipped_prints_nothing(1) [OF _ this, of 0 10] show ?thesis
    by (simp add: no_memory_def)
qed

section \<open>Truncation\<close>



section \<open>Termination and bounds\<close>

text \<open>
  Claim C10. \<^verbatim>\<open>walk_table\<close> terminates on every memory, also one whose tables point at
  themselves: the function is total (its termination is proved with its definition, the
  level growing in every recursive call, which is made only below level 3, and the index
  growing in the loop up to 512). A walk from level \<open>lvl\<close> issues at most
  \<open>subtree_reads (4 - lvl)\<close> reads, at most \<open>512 + 512\<^sup>2 + 512\<^sup>3 + 512\<^sup>4 = 68853957120\<close>;
  every table it opens and every entry it shows has a level between \<open>lvl\<close> and 3, so the
  depth is at most 4, and every index is below 512. The loop of \<^verbatim>\<open>do_walk\<close> makes at most
  4 steps.
\<close>

theorem enumeration_bounded:
  "length (filter is_read (walk_table rd t vs lvl tgt mx)) \<le> subtree_reads (4 - lvl)
   \<and> subtree_reads (4 - lvl) \<le> 68853957120
   \<and> (Header l a \<in> set (walk_table rd t vs lvl tgt mx) \<longrightarrow> lvl \<le> l \<and> l \<le> 3)
   \<and> (Entry l' j va d raw \<in> set (walk_table rd t vs lvl tgt mx) \<longrightarrow>
        lvl \<le> l' \<and> l' \<le> 3 \<and> j < 512)
   \<and> (do_walk regs rd va' = Inr r \<longrightarrow> length (wr_steps r) \<le> 4)"
proof (intro conjI impI)
  show "length (filter is_read (walk_table rd t vs lvl tgt mx)) \<le> subtree_reads (4 - lvl)"
    by (rule reads_bounded(1))
  from subtree_reads_mono [of "4 - lvl" 4] show "subtree_reads (4 - lvl) \<le> 68853957120"
    by (simp add: subtree_reads_4)
next
  assume "Header l a \<in> set (walk_table rd t vs lvl tgt mx)"
  from header_facts(1) [OF this] show "lvl \<le> l" "l \<le> 3" by simp_all
next
  assume "Entry l' j va d raw \<in> set (walk_table rd t vs lvl tgt mx)"
  from entry_facts(1) [OF this] show "lvl \<le> l'" "l' \<le> 3" "j < 512" by simp_all
next
  assume "do_walk regs rd va' = Inr r"
  from do_walk_Inr [OF this]
    walk_levels_length [of rd va' "va' AND 0xFFF" 0 "levels va'" "wr_table_pa r"]
  show "length (wr_steps r) \<le> 4" by (simp add: levels_rows(3))
qed

theorem enumeration_bounded_witness:
  "length (filter is_read (walk_table cyclic_memory 0 0 0 None 10)) \<le> subtree_reads (4 - 0)
   \<and> subtree_reads (4 - 0) \<le> 68853957120
   \<and> Header 1 0 \<in> set (walk_table cyclic_memory 0 0 0 None 10)
   \<and> Entry 0 0 0 (TABLE 0) 3 \<in> set (walk_table cyclic_memory 0 0 0 None 10)
   \<and> do_walk example_regs scenario_memory 0x123456789 = Inr scenario_report
   \<and> length (wr_steps scenario_report) \<le> 4"
proof -
  have h1: "Header 1 0 \<in> set (walk_table cyclic_memory 0 0 0 None 10)"
    by (simp add: walk_table_step [of _ _ _ 0] walk_table_step [of _ _ _ "Suc 0"]
        cyclic_first_entry)
  have h2: "Entry 0 0 0 (TABLE 0) 3 \<in> set (walk_table cyclic_memory 0 0 0 None 10)"
    by (simp add: walk_table_step [of _ _ _ 0] cyclic_first_entry)
  from enumeration_bounded [of cyclic_memory 0 0 0 None 10 1 0 0 0 0 "TABLE 0" 3]
    enumeration_bounded [of scenario_memory 0 0 0 None 10 0 0 0 0 0 UNREADABLE 0 example_regs
      "0x123456789" scenario_report] h1 h2 scenario_walk
  show ?thesis by simp
qed

end
